theory Spec2Isabelle
  imports Main "HOL-Library.Word"
begin

section \<open>Time values\<close>

text \<open>
  A \<^verbatim>\<open>time.Time\<close> obtained from \<^verbatim>\<open>time.Now()\<close> is modelled by its clock reading in
  nanoseconds, a \<^verbatim>\<open>time.Duration\<close> by its \<^verbatim>\<open>int64\<close> number of nanoseconds.
  \<^verbatim>\<open>Time.Sub\<close> saturates at the smallest and the largest duration.
\<close>

type_synonym time = int
type_synonym duration = int

definition minDuration :: duration where
  "minDuration = - (2 ^ 63)"

definition maxDuration :: duration where
  "maxDuration = 2 ^ 63 - 1"

definition time_Sub :: "time \<Rightarrow> time \<Rightarrow> duration" where
  "time_Sub t u =
     (if t - u < minDuration then minDuration
      else if maxDuration < t - u then maxDuration
      else t - u)"

definition int64 :: "int \<Rightarrow> int" where
  "int64 x = (x + 2 ^ 63) mod 2 ^ 64 - 2 ^ 63"

definition Millisecond :: duration where
  "Millisecond = 1000000"

text \<open>\<^verbatim>\<open>time.Duration(n) * time.Millisecond\<close>, a product of two \<^verbatim>\<open>int64\<close> values.\<close>

definition duration_ms :: "int \<Rightarrow> duration" where
  "duration_ms n = int64 (int64 n * Millisecond)"

section \<open>The environment\<close>

text \<open>
  The program reads the clock, dials TCP and LDAP connections and searches over them.
  The answers of the outside world are given by an environment: each answer may depend
  on how many calls of its kind were made before, so that every sequence of answers
  is some environment. The \<open>world\<close> holds the counters, the connections torn down, the
  log, and a record of the candidate evaluations of the server pool and of the
  connections dialled (the last two are observations only: no function reads them).
  Calls are sequential: the model has one thread, and the mutex of the connection pool
  is not modelled.
\<close>

record env =
  clock :: "nat \<Rightarrow> time"
  tcp_dial :: "nat \<Rightarrow> string \<Rightarrow> duration \<Rightarrow> bool"
  ldap_dial :: "nat \<Rightarrow> bool \<Rightarrow> string \<Rightarrow> bool"
  ldap_search :: "nat \<Rightarrow> nat \<Rightarrow> 8 word option"

datatype event = Skipped nat | Probed nat time bool

record world =
  nowCalls :: nat
  tcpDials :: nat
  evals :: "event list"
  ldapDials :: nat
  searches :: nat
  opened :: "nat list"
  torn :: "nat list"
  logs :: "string list"

datatype error =
    ErrPoolEmpty
  | ErrNoActiveServer
  | ErrServerListEmpty
  | ErrInvalidCapacity
  | ErrClosed
  | ErrDial
  | ErrFill error
  | PanicIndexOutOfRange
  | Deadlock

section \<open>The server pool (server.go)\<close>

datatype poolStrategy = FIRST | RR

record server =
  address :: string
  alive :: bool
  checkTimeout :: duration
  lastCheck :: time

record serverPool =
  servers :: "server list"
  lastUsed :: int
  strategy :: poolStrategy
  checkRetryTimeout :: duration

text \<open>\<^verbatim>\<open>time.Now()\<close>: the next reading of the clock.\<close>

definition time_Now :: "env \<Rightarrow> world \<Rightarrow> time \<times> world" where
  "time_Now e w = (clock e (nowCalls w), w\<lparr>nowCalls := Suc (nowCalls w)\<rparr>)"

text \<open>\<^verbatim>\<open>checkAvailability\<close>: one \<^verbatim>\<open>net.DialTimeout\<close>; the connection is closed at once.\<close>

definition checkAvailability :: "env \<Rightarrow> server \<Rightarrow> world \<Rightarrow> bool \<times> world" where
  "checkAvailability e s w =
     (tcp_dial e (tcpDials w) (address s) (checkTimeout s), w\<lparr>tcpDials := Suc (tcpDials w)\<rparr>)"

text \<open>
  The body of the inner loop of \<^verbatim>\<open>findActiveServer\<close> for the candidate \<open>offset\<close>:
  \<open>Inr None\<close> is \<^verbatim>\<open>continue\<close> or the end of the body, \<open>Inr (Some offset)\<close> is
  \<^verbatim>\<open>return offset, nil\<close>, and an index outside the slice is the panic of Go.
\<close>

definition probe :: "env \<Rightarrow> nat \<Rightarrow> serverPool \<Rightarrow> world \<Rightarrow> (error + int option) \<times> serverPool \<times> world" where
  "probe e k c w =
     (let (t, w1) = time_Now e w;
          c1 = c\<lparr>servers := (servers c)[k := (servers c ! k)\<lparr>lastCheck := t\<rparr>]\<rparr>;
          (ok, w2) = checkAvailability e (servers c1 ! k) w1;
          w3 = w2\<lparr>evals := evals w2 @ [Probed k t ok]\<rparr>
      in if ok
         then (Inr (Some (int k)), c1\<lparr>servers := (servers c1)[k := (servers c1 ! k)\<lparr>alive := True\<rparr>]\<rparr>, w3)
         else (Inr None, c1\<lparr>servers := (servers c1)[k := (servers c1 ! k)\<lparr>alive := False\<rparr>]\<rparr>, w3))"

definition examine :: "env \<Rightarrow> int \<Rightarrow> serverPool \<Rightarrow> world \<Rightarrow> (error + int option) \<times> serverPool \<times> world" where
  "examine e offset c w =
     (if offset < 0 \<or> int (length (servers c)) \<le> offset then (Inl PanicIndexOutOfRange, c, w)
      else
        let k = nat offset in
        if \<not> alive (servers c ! k) then
          (let (t, w1) = time_Now e w in
           if time_Sub t (lastCheck (servers c ! k)) < checkRetryTimeout c
           then (Inr None, c, w1\<lparr>evals := evals w1 @ [Skipped k]\<rparr>)
           else probe e k c w1)
        else probe e k c w)"

text \<open>The inner loop \<^verbatim>\<open>for index < (pool_size - 1)\<close>; \<open>index\<close> starts at \<open>-1\<close>.\<close>

function scan :: "env \<Rightarrow> int \<Rightarrow> int \<Rightarrow> int \<Rightarrow> serverPool \<Rightarrow> world \<Rightarrow> (error + int option) \<times> serverPool \<times> world" where
  "scan e pool_size starting index c w =
     (if index < pool_size - 1 then
        let index1 = index + 1;
            offset = (if index1 + starting < pool_size then index1 + starting
                      else index1 + starting - pool_size)
        in case examine e offset c w of
             (Inr None, c1, w1) \<Rightarrow> scan e pool_size starting index1 c1 w1
           | r \<Rightarrow> r
      else (Inr None, c, w))"
  by pat_completeness auto
termination
  by (relation "measure (\<lambda>(e, pool_size, starting, index, c, w). nat (pool_size - 1 - index))") auto

declare scan.simps [simp del]

text \<open>The outer loop \<^verbatim>\<open>for i := 0; i < counter; i++\<close>.\<close>

function passes :: "env \<Rightarrow> int \<Rightarrow> int \<Rightarrow> int \<Rightarrow> int \<Rightarrow> serverPool \<Rightarrow> world \<Rightarrow> (error + int) \<times> serverPool \<times> world" where
  "passes e counter pool_size starting i c w =
     (if i < counter then
        case scan e pool_size starting (- 1) c w of
          (Inr None, c1, w1) \<Rightarrow> passes e counter pool_size starting (i + 1) c1 w1
        | (Inr (Some offset), c1, w1) \<Rightarrow> (Inr offset, c1, w1)
        | (Inl err, c1, w1) \<Rightarrow> (Inl err, c1, w1)
      else (Inl ErrNoActiveServer, c, w))"
  by pat_completeness auto
termination
  by (relation "measure (\<lambda>(e, counter, pool_size, starting, i, c, w). nat (counter - i))") auto

declare passes.simps [simp del]

definition findActiveServer :: "env \<Rightarrow> int \<Rightarrow> serverPool \<Rightarrow> world \<Rightarrow> (error + int) \<times> serverPool \<times> world" where
  "findActiveServer e starting c w =
     (let starting1 = (if int (length (servers c)) \<le> starting then 0 else starting);
          counter = 3;
          pool_size = int (length (servers c))
      in passes e counter pool_size starting1 0 c w)"

text \<open>\<^verbatim>\<open>serverPool.Get\<close>, called \<^verbatim>\<open>SelectServer\<close> in the specification.\<close>

definition serverPool_Get :: "env \<Rightarrow> serverPool \<Rightarrow> world \<Rightarrow> (error + string) \<times> serverPool \<times> world" where
  "serverPool_Get e c w =
     (if length (servers c) \<noteq> 0 then
        case (if strategy c = RR then findActiveServer e (lastUsed c + 1) c w
              else findActiveServer e 0 c w) of
          (Inl err, c1, w1) \<Rightarrow> (Inl err, c1, w1)
        | (Inr serverIndex, c1, w1) \<Rightarrow>
            (if serverIndex < 0 \<or> int (length (servers c1)) \<le> serverIndex
             then (Inl PanicIndexOutOfRange, c1\<lparr>lastUsed := serverIndex\<rparr>, w1)
             else (Inr (address (servers c1 ! nat serverIndex)), c1\<lparr>lastUsed := serverIndex\<rparr>, w1))
      else (Inl ErrPoolEmpty, c, w))"

text \<open>The loop of \<^verbatim>\<open>NewServerPool\<close> over the addresses: one clock reading for each.\<close>

fun add_servers :: "env \<Rightarrow> duration \<Rightarrow> string list \<Rightarrow> serverPool \<Rightarrow> world \<Rightarrow> serverPool \<times> world" where
  "add_servers e ct [] c w = (c, w)"
| "add_servers e ct (a # as) c w =
     (let (t, w1) = time_Now e w;
          pool_server = \<lparr>address = a, alive = True, checkTimeout = ct, lastCheck = t\<rparr>
      in add_servers e ct as (c\<lparr>servers := servers c @ [pool_server]\<rparr>) w1)"

definition NewServerPool :: "env \<Rightarrow> string list \<Rightarrow> int \<Rightarrow> int \<Rightarrow> bool \<Rightarrow> world \<Rightarrow> (error + serverPool) \<times> world" where
  "NewServerPool e srvs checkRetry serverCheck roundrobin w =
     (let strat = (if roundrobin then RR else FIRST) in
      if length srvs = 0 then (Inl ErrServerListEmpty, w)
      else
        let c = \<lparr>servers = [], lastUsed = - 1, strategy = strat,
                 checkRetryTimeout = duration_ms checkRetry\<rparr>;
            (c1, w1) = add_servers e (duration_ms serverCheck) srvs c w
        in (Inr c1, w1))"

section \<open>The connection pool (channel.go)\<close>

text \<open>
  Modelled from the spec: the type \<^verbatim>\<open>PoolConn\<close> and its methods, which are not among the
  sources (only \<^verbatim>\<open>wrapConn\<close>, which sets the fields \<^verbatim>\<open>c\<close>, \<^verbatim>\<open>closeAt\<close> and \<^verbatim>\<open>Conn\<close>, is).
  Following the specification, a wrapper remembers the result code of the most recent
  operation on it (\<open>pc_lastCode\<close>; \<open>None\<close> when no operation was made or the last one
  returned no error). The field \<^verbatim>\<open>c\<close>, the owning pool, is the pool passed to the functions
  below.

  An \<^verbatim>\<open>ldap.Client\<close> in the pool is either a connection dialled by \<^verbatim>\<open>ldap.Dial\<close>, known
  by the number of the dial that made it, or a \<^verbatim>\<open>*PoolConn\<close> made by \<^verbatim>\<open>wrapConn\<close> around
  another client. A \<^verbatim>\<open>nil\<close> client is \<open>None\<close> of type \<open>client option\<close>; it occurs as the
  argument of \<^verbatim>\<open>put\<close> only.
\<close>

datatype client =
    LdapConn nat
  | PoolConn (pc_Conn: client) (pc_closeAt: "8 word list") (pc_lastCode: "8 word option")

text \<open>
  A buffered channel of clients: its queue and its capacity. The field \<^verbatim>\<open>conns\<close> of
  the pool is \<open>None\<close> for the \<^verbatim>\<open>nil\<close> channel. (\<^verbatim>\<open>Close\<close> sets the field to \<^verbatim>\<open>nil\<close> before it
  closes the channel, so that in sequential calls the field never holds a closed
  channel.)
\<close>

record chan =
  chan_buf :: "client list"
  chan_cap :: nat

record channelPool =
  conns :: "chan option"
  name :: string
  serverPool :: serverPool
  useTLS :: bool
  closeAt :: "8 word list"

definition wrapConn :: "client \<Rightarrow> 8 word list \<Rightarrow> client" where
  "wrapConn conn ca = PoolConn conn ca None"

text \<open>
  Modelled from the spec: \<^verbatim>\<open>PoolConn.Search\<close> (not among the sources) passes the request
  to the wrapped client and remembers the result code.
  On a dialled connection the environment answers \<^verbatim>\<open>conn.Search\<close>: \<open>None\<close> is no error,
  \<open>Some code\<close> an error with that result code.
\<close>

fun client_Search :: "env \<Rightarrow> client \<Rightarrow> world \<Rightarrow> 8 word option \<times> client \<times> world" where
  "client_Search e (LdapConn i) w =
     (ldap_search e (searches w) i, LdapConn i, w\<lparr>searches := Suc (searches w)\<rparr>)"
| "client_Search e (PoolConn inner ca lc) w =
     (case client_Search e inner w of
        (r, inner1, w1) \<Rightarrow> (r, PoolConn inner1 ca r, w1))"

definition isAlive :: "env \<Rightarrow> client \<Rightarrow> world \<Rightarrow> bool \<times> client \<times> world" where
  "isAlive e conn w = (case client_Search e conn w of (r, conn1, w1) \<Rightarrow> (r = None, conn1, w1))"

text \<open>
  Modelled from the spec: \<^verbatim>\<open>PoolConn.Close\<close> (not among the sources) looks whether the
  most recent operation on the wrapper produced a result code in \<^verbatim>\<open>closeAt\<close>.
\<close>

definition dispose :: "8 word list \<Rightarrow> 8 word option \<Rightarrow> bool" where
  "dispose ca lc = (case lc of None \<Rightarrow> False | Some code \<Rightarrow> code \<in> set ca)"

text \<open>
  \<^verbatim>\<open>put\<close>, and \<^verbatim>\<open>conn.Close()\<close> by the dynamic type of \<open>conn\<close>. The \<^verbatim>\<open>Close\<close> of a
  dialled connection tears it down (it is appended to \<open>torn\<close>).
  Modelled from the spec: when \<open>dispose\<close> holds, \<^verbatim>\<open>PoolConn.Close\<close> calls the \<^verbatim>\<open>Close\<close> of the
  wrapped client (the real teardown), otherwise it calls \<^verbatim>\<open>put\<close> of the pool with the
  wrapped client.
\<close>

fun put :: "client option \<Rightarrow> channelPool \<Rightarrow> world \<Rightarrow> channelPool \<times> world"
  and client_Close :: "client \<Rightarrow> channelPool \<Rightarrow> world \<Rightarrow> channelPool \<times> world" where
  "put None c w = (c, w\<lparr>logs := logs w @ [''connection is nil. rejecting'']\<rparr>)"
| "put (Some conn) c w =
     (case conns c of
        None \<Rightarrow> client_Close conn c w
      | Some ch \<Rightarrow>
          if length (chan_buf ch) < chan_cap ch
          then (c\<lparr>conns := Some (ch\<lparr>chan_buf := chan_buf ch @ [conn]\<rparr>)\<rparr>, w)
          else client_Close conn c w)"
| "client_Close (LdapConn i) c w = (c, w\<lparr>torn := torn w @ [i]\<rparr>)"
| "client_Close (PoolConn inner ca lc) c w =
     (if dispose ca lc
      then client_Close inner c w
      else put (Some inner) c w)"

text \<open>
  \<^verbatim>\<open>NewConn\<close>: an address from the server pool, then \<^verbatim>\<open>ldap.Dial\<close> or \<^verbatim>\<open>ldap.DialTLS\<close>.
  \<^verbatim>\<open>SetTimeout\<close> has no effect that the model observes.
\<close>

definition NewConn :: "env \<Rightarrow> bool \<Rightarrow> channelPool \<Rightarrow> world \<Rightarrow> (error + client) \<times> channelPool \<times> world" where
  "NewConn e tls c w =
     (case serverPool_Get e (serverPool c) w of
        (Inl err, sp1, w1) \<Rightarrow> (Inl err, c\<lparr>serverPool := sp1\<rparr>, w1)
      | (Inr srv, sp1, w1) \<Rightarrow>
          (let c1 = c\<lparr>serverPool := sp1\<rparr>;
               i = ldapDials w1;
               w2 = w1\<lparr>ldapDials := Suc i\<rparr>
           in if ldap_dial e i tls srv
              then (Inr (wrapConn (LdapConn i) (closeAt c1)), c1, w2\<lparr>opened := opened w2 @ [i]\<rparr>)
              else (Inl ErrDial, c1, w2)))"

text \<open>
  \<^verbatim>\<open>Get\<close>. The \<^verbatim>\<open>select\<close> takes the head of the queue when there is one and the
  \<^verbatim>\<open>default\<close> branch otherwise. A client received from an open channel is not \<^verbatim>\<open>nil\<close>
  (\<^verbatim>\<open>put\<close> rejects \<^verbatim>\<open>nil\<close>), so the test \<^verbatim>\<open>conn == nil\<close> after the receive is never true here.
\<close>

definition channelPool_Get :: "env \<Rightarrow> channelPool \<Rightarrow> world \<Rightarrow> (error + client) \<times> channelPool \<times> world" where
  "channelPool_Get e c w =
     (case conns c of
        None \<Rightarrow> (Inl ErrClosed, c, w)
      | Some ch \<Rightarrow>
          (case chan_buf ch of
             [] \<Rightarrow> NewConn e (useTLS c) c w
           | conn # rest \<Rightarrow>
               (let c1 = c\<lparr>conns := Some (ch\<lparr>chan_buf := rest\<rparr>)\<rparr> in
                case isAlive e conn w of
                  (ok, conn1, w1) \<Rightarrow>
                    if ok then (Inr (wrapConn conn1 (closeAt c1)), c1, w1)
                    else (case client_Close conn1 c1 w1 of
                            (c2, w2) \<Rightarrow> NewConn e (useTLS c2) c2 w2))))"

text \<open>\<^verbatim>\<open>Close\<close>: the loop \<^verbatim>\<open>for conn := range conns\<close> over the closed channel.\<close>

fun drain :: "client list \<Rightarrow> channelPool \<Rightarrow> world \<Rightarrow> channelPool \<times> world" where
  "drain [] c w = (c, w)"
| "drain (conn # rest) c w = (case client_Close conn c w of (c1, w1) \<Rightarrow> drain rest c1 w1)"

definition channelPool_Close :: "channelPool \<Rightarrow> world \<Rightarrow> channelPool \<times> world" where
  "channelPool_Close c w =
     (case conns c of
        None \<Rightarrow> (c, w)
      | Some ch \<Rightarrow> drain (chan_buf ch) (c\<lparr>conns := None\<rparr>) w)"

definition Len :: "channelPool \<Rightarrow> nat" where
  "Len c = (case conns c of None \<Rightarrow> 0 | Some ch \<Rightarrow> length (chan_buf ch))"

text \<open>
  \<^verbatim>\<open>NewChannelPool\<close>. The loop sends each new connection on the channel; a send on a full
  channel would wait for ever and is the value \<open>Deadlock\<close>. The server pool is passed by
  pointer: its state after the call is returned beside the result.
\<close>

function fill :: "env \<Rightarrow> int \<Rightarrow> bool \<Rightarrow> int \<Rightarrow> channelPool \<Rightarrow> world \<Rightarrow> (error + channelPool) \<times> serverPool \<times> world" where
  "fill e initialCap tls i c w =
     (if i < initialCap then
        case NewConn e tls c w of
          (Inl err, c1, w1) \<Rightarrow>
            (case channelPool_Close c1 w1 of (c2, w2) \<Rightarrow> (Inl (ErrFill err), serverPool c2, w2))
        | (Inr conn, c1, w1) \<Rightarrow>
            (case conns c1 of
               None \<Rightarrow> (Inl Deadlock, serverPool c1, w1)
             | Some ch \<Rightarrow>
                 if length (chan_buf ch) < chan_cap ch
                 then fill e initialCap tls (i + 1)
                        (c1\<lparr>conns := Some (ch\<lparr>chan_buf := chan_buf ch @ [conn]\<rparr>)\<rparr>) w1
                 else (Inl Deadlock, serverPool c1, w1))
      else (Inr c, serverPool c, w))"
  by pat_completeness auto
termination
  by (relation "measure (\<lambda>(e, initialCap, tls, i, c, w). nat (initialCap - i))") auto

declare fill.simps [simp del]

definition NewChannelPool :: "env \<Rightarrow> int \<Rightarrow> int \<Rightarrow> serverPool \<Rightarrow> bool \<Rightarrow> 8 word list \<Rightarrow> world \<Rightarrow> (error + channelPool) \<times> serverPool \<times> world" where
  "NewChannelPool e initialCap maxCap srvs tls ca w =
     (if initialCap < 0 \<or> maxCap \<le> 0 \<or> initialCap > maxCap then (Inl ErrInvalidCapacity, srvs, w)
      else
        let c = \<lparr>conns = Some \<lparr>chan_buf = [], chan_cap = nat maxCap\<rparr>, name = [],
                 serverPool = srvs, useTLS = tls, closeAt = ca\<rparr>
        in fill e initialCap tls 0 c w)"

section \<open>Reading the record of evaluations\<close>

text \<open>
  The evaluations recorded during a call are the events appended to \<open>evals\<close>.
  \<open>replay\<close> writes the time and the outcome of each recorded probe into the entry probed,
  in the order of the record.
\<close>

definition new_evals :: "world \<Rightarrow> world \<Rightarrow> event list" where
  "new_evals w w' = drop (length (evals w)) (evals w')"

fun ev_offset :: "event \<Rightarrow> nat" where
  "ev_offset (Skipped k) = k"
| "ev_offset (Probed k t ok) = k"

fun succeeded :: "event \<Rightarrow> bool" where
  "succeeded (Skipped k) = False"
| "succeeded (Probed k t ok) = ok"

fun is_probe :: "event \<Rightarrow> bool" where
  "is_probe (Skipped k) = False"
| "is_probe (Probed k t ok) = True"

fun apply_event :: "event \<Rightarrow> server list \<Rightarrow> server list" where
  "apply_event (Skipped k) ss = ss"
| "apply_event (Probed k t ok) ss = ss[k := (ss ! k)\<lparr>lastCheck := t, alive := ok\<rparr>]"

fun replay :: "event list \<Rightarrow> server list \<Rightarrow> server list" where
  "replay [] ss = ss"
| "replay (ev # evs) ss = replay evs (apply_event ev ss)"

text \<open>The time and the outcome of the last probe of entry \<open>k\<close> in a record, if any.\<close>

fun last_probe :: "nat \<Rightarrow> event list \<Rightarrow> (time \<times> bool) option" where
  "last_probe k [] = None"
| "last_probe k (ev # evs) =
     (case last_probe k evs of
        Some p \<Rightarrow> Some p
      | None \<Rightarrow> (case ev of Probed k' t ok \<Rightarrow> if k' = k then Some (t, ok) else None
                | Skipped k' \<Rightarrow> None))"

text \<open>
  \<open>m\<close> consecutive calls of \<^verbatim>\<open>Get\<close>: the result of each call and \<open>lastUsed\<close> after it.
\<close>

fun Get_times :: "env \<Rightarrow> nat \<Rightarrow> serverPool \<Rightarrow> world \<Rightarrow> ((error + string) \<times> int) list \<times> serverPool \<times> world" where
  "Get_times e 0 c w = ([], c, w)"
| "Get_times e (Suc m) c w =
     (case serverPool_Get e c w of
        (r, c1, w1) \<Rightarrow>
          (case Get_times e m c1 w1 of (rs, c2, w2) \<Rightarrow> ((r, lastUsed c1) # rs, c2, w2)))"

text \<open>
  An event is justified in a state of the entries, after \<open>n\<close> readings of the clock and \<open>j\<close>
  TCP dials: a skip when the entry is dead and the reading of the clock is less than
  the retry timeout after its last check, a probe otherwise, with the time read and the
  answer of the dial.
\<close>

fun in_backoff :: "env \<Rightarrow> duration \<Rightarrow> server \<Rightarrow> nat \<Rightarrow> bool" where
  "in_backoff e crt s n = (\<not> alive s \<and> time_Sub (clock e n) (lastCheck s) < crt)"

fun step_ok :: "env \<Rightarrow> duration \<Rightarrow> server list \<Rightarrow> nat \<Rightarrow> nat \<Rightarrow> event \<Rightarrow> bool" where
  "step_ok e crt ss n j (Skipped k) = (k < length ss \<and> in_backoff e crt (ss ! k) n)"
| "step_ok e crt ss n j (Probed k t ok) =
     (k < length ss \<and> \<not> in_backoff e crt (ss ! k) n \<and>
      t = clock e (if alive (ss ! k) then n else Suc n) \<and>
      ok = tcp_dial e j (address (ss ! k)) (checkTimeout (ss ! k)))"

fun next_n :: "server list \<Rightarrow> nat \<Rightarrow> event \<Rightarrow> nat" where
  "next_n ss n (Skipped k) = Suc n"
| "next_n ss n (Probed k t ok) = (if alive (ss ! k) then Suc n else Suc (Suc n))"

fun next_j :: "nat \<Rightarrow> event \<Rightarrow> nat" where
  "next_j j (Skipped k) = j"
| "next_j j (Probed k t ok) = Suc j"

fun valid :: "env \<Rightarrow> duration \<Rightarrow> server list \<Rightarrow> nat \<Rightarrow> nat \<Rightarrow> event list \<Rightarrow> bool" where
  "valid e crt ss n j [] = True"
| "valid e crt ss n j (ev # evs) =
     (step_ok e crt ss n j ev \<and> valid e crt (apply_event ev ss) (next_n ss n ev) (next_j j ev) evs)"

fun clock_after :: "server list \<Rightarrow> nat \<Rightarrow> event list \<Rightarrow> nat" where
  "clock_after ss n [] = n"
| "clock_after ss n (ev # evs) = clock_after (apply_event ev ss) (next_n ss n ev) evs"

fun dials_after :: "nat \<Rightarrow> event list \<Rightarrow> nat" where
  "dials_after j [] = j"
| "dials_after j (ev # evs) = dials_after (next_j j ev) evs"

section \<open>The scan as a run over a list of candidates\<close>

text \<open>
  For the proofs, the two nested loops are a single run over the candidates of three
  passes, which stops at the first return.
\<close>

fun run :: "env \<Rightarrow> int list \<Rightarrow> serverPool \<Rightarrow> world \<Rightarrow> (error + int option) \<times> serverPool \<times> world" where
  "run e [] c w = (Inr None, c, w)"
| "run e (off # offs) c w =
     (case examine e off c w of
        (Inr None, c1, w1) \<Rightarrow> run e offs c1 w1
      | r \<Rightarrow> r)"

definition wrap_offset :: "int \<Rightarrow> int \<Rightarrow> int \<Rightarrow> int" where
  "wrap_offset pool_size starting index1 =
     (if index1 + starting < pool_size then index1 + starting else index1 + starting - pool_size)"

definition cands :: "int \<Rightarrow> int \<Rightarrow> int list" where
  "cands pool_size starting = map (wrap_offset pool_size starting) [0..pool_size - 1]"

fun finish :: "(error + int option) \<times> serverPool \<times> world \<Rightarrow> (error + int) \<times> serverPool \<times> world" where
  "finish (Inr None, c, w) = (Inl ErrNoActiveServer, c, w)"
| "finish (Inr (Some off), c, w) = (Inr off, c, w)"
| "finish (Inl err, c, w) = (Inl err, c, w)"

definition start_index :: "serverPool \<Rightarrow> int" where
  "start_index c =
     (if strategy c = RR
      then (if int (length (servers c)) \<le> lastUsed c + 1 then 0 else lastUsed c + 1)
      else 0)"

definition offsets :: "serverPool \<Rightarrow> int list" where
  "offsets c = concat (replicate 3 (cands (int (length (servers c))) (start_index c)))"

definition mark :: "nat \<Rightarrow> time \<Rightarrow> bool \<Rightarrow> serverPool \<Rightarrow> serverPool" where
  "mark k t ok c = c\<lparr>servers := (servers c)[k := (servers c ! k)\<lparr>lastCheck := t, alive := ok\<rparr>]\<rparr>"

definition outcome :: "(error + int option) \<Rightarrow> int list \<Rightarrow> event list \<Rightarrow> bool" where
  "outcome r offs evs =
     (case r of
        Inl err \<Rightarrow> False
      | Inr None \<Rightarrow> map ev_offset evs = map nat offs \<and> (\<forall>ev\<in>set evs. \<not> succeeded ev)
      | Inr (Some off) \<Rightarrow>
          evs \<noteq> [] \<and> succeeded (last evs) \<and> (\<forall>ev\<in>set (butlast evs). \<not> succeeded ev) \<and>
          map ev_offset evs = map nat (take (length evs) offs) \<and>
          length evs \<le> length offs \<and> off = offs ! (length evs - 1))"

definition world_after :: "serverPool \<Rightarrow> world \<Rightarrow> event list \<Rightarrow> world" where
  "world_after c w evs =
     w\<lparr>nowCalls := clock_after (servers c) (nowCalls w) evs,
       tcpDials := dials_after (tcpDials w) evs,
       evals := evals w @ evs\<rparr>"

text \<open>The entries that the loop of \<^verbatim>\<open>NewServerPool\<close> appends, from the \<open>n\<close>-th reading of the clock.\<close>

fun fresh_servers :: "env \<Rightarrow> duration \<Rightarrow> nat \<Rightarrow> string list \<Rightarrow> server list" where
  "fresh_servers e ct n [] = []"
| "fresh_servers e ct n (a # as) =
     \<lparr>address = a, alive = True, checkTimeout = ct, lastCheck = clock e n\<rparr> # fresh_servers e ct (Suc n) as"

section \<open>Reading the state of the connection pool\<close>

text \<open>
  The dialled connection under the wrappers of a client, the clients idle in the pool,
  the capacity of the channel, and the connections dialled during a call.
\<close>

fun transport :: "client \<Rightarrow> nat" where
  "transport (LdapConn i) = i"
| "transport (PoolConn inner ca lc) = transport inner"

definition idle :: "channelPool \<Rightarrow> client list" where
  "idle c = (case conns c of None \<Rightarrow> [] | Some ch \<Rightarrow> chan_buf ch)"

definition capacity :: "channelPool \<Rightarrow> nat" where
  "capacity c = (case conns c of None \<Rightarrow> 0 | Some ch \<Rightarrow> chan_cap ch)"

definition new_opened :: "world \<Rightarrow> world \<Rightarrow> nat list" where
  "new_opened w w' = drop (length (opened w)) (opened w')"



text \<open>
  A later use of the pool: \<^verbatim>\<open>Get\<close>, \<^verbatim>\<open>put\<close>, the \<^verbatim>\<open>Close\<close> of a client, or \<^verbatim>\<open>Close\<close> of the pool;
  the dialled connections that a use hands to the pool; the dialled connections idle in
  the pool.
\<close>

datatype pool_op = Acquire | Release "client option" | CloseWrapper client | CloseAll

fun apply_op :: "env \<Rightarrow> pool_op \<Rightarrow> channelPool \<Rightarrow> world \<Rightarrow> channelPool \<times> world" where
  "apply_op e Acquire c w = (case channelPool_Get e c w of (r, c1, w1) \<Rightarrow> (c1, w1))"
| "apply_op e (Release x) c w = put x c w"
| "apply_op e (CloseWrapper p) c w = client_Close p c w"
| "apply_op e CloseAll c w = channelPool_Close c w"

fun apply_ops :: "env \<Rightarrow> pool_op list \<Rightarrow> channelPool \<Rightarrow> world \<Rightarrow> channelPool \<times> world" where
  "apply_ops e [] c w = (c, w)"
| "apply_ops e (x # xs) c w = (case apply_op e x c w of (c1, w1) \<Rightarrow> apply_ops e xs c1 w1)"



text \<open>
  The eager dials of the construction in the words of the specification: \<open>n\<close> calls of
  \<^verbatim>\<open>NewConn\<close> one after another, stopping at the first that fails; the result is the error
  of the call that failed, if one did, and the clients made before it. \<open>empty_pool\<close> is
  the pool that \<^verbatim>\<open>NewChannelPool\<close> allocates before it dials.
\<close>

fun eager_dials :: "env \<Rightarrow> bool \<Rightarrow> nat \<Rightarrow> channelPool \<Rightarrow> world \<Rightarrow> error option \<times> client list \<times> channelPool \<times> world" where
  "eager_dials e tls 0 c w = (None, [], c, w)"
| "eager_dials e tls (Suc n) c w =
     (case NewConn e tls c w of
        (Inl err, c1, w1) \<Rightarrow> (Some err, [], c1, w1)
      | (Inr conn, c1, w1) \<Rightarrow>
          (case eager_dials e tls n c1 w1 of (r, cs, c2, w2) \<Rightarrow> (r, conn # cs, c2, w2)))"

definition empty_pool :: "int \<Rightarrow> serverPool \<Rightarrow> bool \<Rightarrow> 8 word list \<Rightarrow> channelPool" where
  "empty_pool maxCap srvs tls ca =
     \<lparr>conns = Some \<lparr>chan_buf = [], chan_cap = nat maxCap\<rparr>, name = [],
      serverPool = srvs, useTLS = tls, closeAt = ca\<rparr>"

section \<open>Example inputs\<close>

text \<open>
  Three environments whose clock advances by one nanosecond at each reading: only
  \<open>b\<close> answers, nothing answers, everything answers. \<open>ex_pool\<close> is the pool that
  \<^verbatim>\<open>NewServerPool\<close> builds for the servers \<open>a\<close> and \<open>b\<close> with a retry timeout of ten
  seconds, \<open>ex_pool_eager\<close> the same with a retry timeout of zero.
\<close>

definition ex_env :: env where
  "ex_env = \<lparr>clock = (\<lambda>n. int n), tcp_dial = (\<lambda>n a d. a = ''b''),
     ldap_dial = (\<lambda>n t a. True), ldap_search = (\<lambda>n i. None)\<rparr>"

definition ex_env_down :: env where
  "ex_env_down = \<lparr>clock = (\<lambda>n. int n), tcp_dial = (\<lambda>n a d. False),
     ldap_dial = (\<lambda>n t a. True), ldap_search = (\<lambda>n i. None)\<rparr>"

definition ex_env_up :: env where
  "ex_env_up = \<lparr>clock = (\<lambda>n. int n), tcp_dial = (\<lambda>n a d. True),
     ldap_dial = (\<lambda>n t a. True), ldap_search = (\<lambda>n i. None)\<rparr>"

definition ex_world0 :: world where
  "ex_world0 = \<lparr>nowCalls = 0, tcpDials = 0, evals = [], ldapDials = 0, searches = 0,
     opened = [], torn = [], logs = []\<rparr>"

definition ex_world :: world where
  "ex_world = \<lparr>nowCalls = 2, tcpDials = 0, evals = [], ldapDials = 0, searches = 0,
     opened = [], torn = [], logs = []\<rparr>"

definition ex_pool :: serverPool where
  "ex_pool = \<lparr>servers = [\<lparr>address = ''a'', alive = True, checkTimeout = 200000000, lastCheck = 0\<rparr>,
       \<lparr>address = ''b'', alive = True, checkTimeout = 200000000, lastCheck = 1\<rparr>],
     lastUsed = - 1, strategy = RR, checkRetryTimeout = 10000000000\<rparr>"

definition ex_pool' :: serverPool where
  "ex_pool' = \<lparr>servers = [\<lparr>address = ''a'', alive = False, checkTimeout = 200000000, lastCheck = 2\<rparr>,
       \<lparr>address = ''b'', alive = True, checkTimeout = 200000000, lastCheck = 3\<rparr>],
     lastUsed = 1, strategy = RR, checkRetryTimeout = 10000000000\<rparr>"

definition ex_world' :: world where
  "ex_world' = \<lparr>nowCalls = 4, tcpDials = 2, evals = [Probed 0 2 False, Probed 1 3 True],
     ldapDials = 0, searches = 0, opened = [], torn = [], logs = []\<rparr>"

definition ex_pool_down :: serverPool where
  "ex_pool_down = \<lparr>servers = [\<lparr>address = ''a'', alive = False, checkTimeout = 200000000, lastCheck = 2\<rparr>,
       \<lparr>address = ''b'', alive = False, checkTimeout = 200000000, lastCheck = 3\<rparr>],
     lastUsed = - 1, strategy = RR, checkRetryTimeout = 10000000000\<rparr>"

definition ex_world_down :: world where
  "ex_world_down = \<lparr>nowCalls = 8, tcpDials = 2,
     evals = [Probed 0 2 False, Probed 1 3 False, Skipped 0, Skipped 1, Skipped 0, Skipped 1],
     ldapDials = 0, searches = 0, opened = [], torn = [], logs = []\<rparr>"

definition ex_world_skips :: world where
  "ex_world_skips = \<lparr>nowCalls = 14, tcpDials = 2,
     evals = [Probed 0 2 False, Probed 1 3 False, Skipped 0, Skipped 1, Skipped 0, Skipped 1,
              Skipped 0, Skipped 1, Skipped 0, Skipped 1, Skipped 0, Skipped 1],
     ldapDials = 0, searches = 0, opened = [], torn = [], logs = []\<rparr>"

definition ex_pool_eager :: serverPool where
  "ex_pool_eager = \<lparr>servers = [\<lparr>address = ''a'', alive = True, checkTimeout = 200000000, lastCheck = 0\<rparr>,
       \<lparr>address = ''b'', alive = True, checkTimeout = 200000000, lastCheck = 1\<rparr>],
     lastUsed = - 1, strategy = RR, checkRetryTimeout = 0\<rparr>"

definition ex_pool_eager' :: serverPool where
  "ex_pool_eager' = \<lparr>servers = [\<lparr>address = ''a'', alive = False, checkTimeout = 200000000, lastCheck = 9\<rparr>,
       \<lparr>address = ''b'', alive = False, checkTimeout = 200000000, lastCheck = 11\<rparr>],
     lastUsed = - 1, strategy = RR, checkRetryTimeout = 0\<rparr>"

definition ex_world_eager' :: world where
  "ex_world_eager' = \<lparr>nowCalls = 12, tcpDials = 6,
     evals = [Probed 0 2 False, Probed 1 3 False, Probed 0 5 False, Probed 1 7 False,
              Probed 0 9 False, Probed 1 11 False],
     ldapDials = 0, searches = 0, opened = [], torn = [], logs = []\<rparr>"

text \<open>
  A flapping server: \<open>a\<close> answers the third TCP dial only. With the retry timeout of
  zero it fails the probe of the first pass and passes the probe of the second.
\<close>

definition ex_env_flap :: env where
  "ex_env_flap = \<lparr>clock = (\<lambda>n. int n), tcp_dial = (\<lambda>n a d. n = 2),
     ldap_dial = (\<lambda>n t a. True), ldap_search = (\<lambda>n i. None)\<rparr>"

definition ex_pool_flap :: serverPool where
  "ex_pool_flap = \<lparr>servers = [\<lparr>address = ''a'', alive = True, checkTimeout = 200000000, lastCheck = 5\<rparr>,
       \<lparr>address = ''b'', alive = False, checkTimeout = 200000000, lastCheck = 3\<rparr>],
     lastUsed = 0, strategy = RR, checkRetryTimeout = 0\<rparr>"

definition ex_world_flap :: world where
  "ex_world_flap = \<lparr>nowCalls = 6, tcpDials = 3,
     evals = [Probed 0 2 False, Probed 1 3 False, Probed 0 5 True],
     ldapDials = 0, searches = 0, opened = [], torn = [], logs = []\<rparr>"

text \<open>
  For the connection pool: the codes that \<^verbatim>\<open>main.go\<close> passes as \<^verbatim>\<open>closeAt\<close> (time limit
  exceeded, network error, invalid credentials), an environment whose searches fail with
  a network error, one whose second LDAP dial fails, pools of capacity two (empty,
  full, and closed), a wrapper of a third connection, and a world in which the three
  connections have been dialled.
\<close>

definition ex_closeAt :: "8 word list" where
  "ex_closeAt = [3, 200, 49]"


definition ex_env_dial :: env where
  "ex_env_dial = \<lparr>clock = (\<lambda>n. int n), tcp_dial = (\<lambda>n a d. True),
     ldap_dial = (\<lambda>n t a. n = 0), ldap_search = (\<lambda>n i. None)\<rparr>"

definition ex_cpool :: channelPool where
  "ex_cpool = \<lparr>conns = Some \<lparr>chan_buf = [], chan_cap = 2\<rparr>, name = [],
     serverPool = ex_pool, useTLS = False, closeAt = ex_closeAt\<rparr>"

definition ex_cpool_full :: channelPool where
  "ex_cpool_full = \<lparr>conns = Some \<lparr>chan_buf = [LdapConn 0, PoolConn (LdapConn 1) ex_closeAt None],
       chan_cap = 2\<rparr>, name = [],
     serverPool = ex_pool, useTLS = False, closeAt = ex_closeAt\<rparr>"

definition ex_cpool_closed :: channelPool where
  "ex_cpool_closed = \<lparr>conns = None, name = [],
     serverPool = ex_pool, useTLS = False, closeAt = ex_closeAt\<rparr>"

definition ex_wrapper :: client where
  "ex_wrapper = PoolConn (LdapConn 2) ex_closeAt None"

definition ex_cworld :: world where
  "ex_cworld = \<lparr>nowCalls = 2, tcpDials = 0, evals = [], ldapDials = 3, searches = 0,
     opened = [0, 1, 2], torn = [], logs = []\<rparr>"

definition ex_cworld_closed :: world where
  "ex_cworld_closed = \<lparr>nowCalls = 2, tcpDials = 0, evals = [], ldapDials = 3, searches = 0,
     opened = [0, 1, 2], torn = [0, 1], logs = []\<rparr>"

text \<open>
  The construction of a pool of two connections when the second LDAP dial fails: the
  state after the first eager dial, and the call of \<^verbatim>\<open>NewConn\<close> that fails in it.
\<close>

definition ex_first_dial :: "error option \<times> client list \<times> channelPool \<times> world" where
  "ex_first_dial = eager_dials ex_env_dial False 1 (empty_pool 2 ex_pool False ex_closeAt) ex_world"

definition ex_second_dial :: "(error + client) \<times> channelPool \<times> world" where
  "ex_second_dial =
     NewConn ex_env_dial False (fst (snd (snd ex_first_dial))) (snd (snd (snd ex_first_dial)))"

section \<open>Lemmas about the server pool\<close>

lemma probe_eq:
  assumes "k < length (servers c)"
  shows "probe e k c w =
     (let t = clock e (nowCalls w);
          ok = tcp_dial e (tcpDials w) (address (servers c ! k)) (checkTimeout (servers c ! k))
      in (if ok then Inr (Some (int k)) else Inr None, mark k t ok c,
          w\<lparr>nowCalls := Suc (nowCalls w), tcpDials := Suc (tcpDials w),
            evals := evals w @ [Probed k t ok]\<rparr>))"
  using assms
  by (simp add: probe_def time_Now_def checkAvailability_def mark_def Let_def)

lemma examine_eq:
  assumes "0 \<le> off" "off < int (length (servers c))"
  shows "examine e off c w =
     (let k = nat off; s = servers c ! k in
      if \<not> alive s \<and> time_Sub (clock e (nowCalls w)) (lastCheck s) < checkRetryTimeout c
      then (Inr None, c, w\<lparr>nowCalls := Suc (nowCalls w), evals := evals w @ [Skipped k]\<rparr>)
      else let n = (if alive s then nowCalls w else Suc (nowCalls w));
               t = clock e n;
               ok = tcp_dial e (tcpDials w) (address s) (checkTimeout s)
           in (if ok then Inr (Some off) else Inr None, mark k t ok c,
               w\<lparr>nowCalls := Suc n, tcpDials := Suc (tcpDials w),
                 evals := evals w @ [Probed k t ok]\<rparr>))"
proof -
  from assms have k: "nat off < length (servers c)" by simp
  show ?thesis
    using assms by (simp add: examine_def probe_eq [OF k] time_Now_def Let_def)
qed

lemma examine_step:
  assumes "0 \<le> off" "off < int (length (servers c))"
  obtains ev where
    "step_ok e (checkRetryTimeout c) (servers c) (nowCalls w) (tcpDials w) ev"
    "ev_offset ev = nat off"
    "examine e off c w =
       (if succeeded ev then Inr (Some off) else Inr None,
        c\<lparr>servers := apply_event ev (servers c)\<rparr>,
        w\<lparr>nowCalls := next_n (servers c) (nowCalls w) ev,
          tcpDials := next_j (tcpDials w) ev,
          evals := evals w @ [ev]\<rparr>)"
proof (cases "in_backoff e (checkRetryTimeout c) (servers c ! nat off) (nowCalls w)")
  case True
  with assms show ?thesis
    by (intro that [of "Skipped (nat off)"]) (simp_all add: examine_eq Let_def)
next
  case False
  define s where "s = servers c ! nat off"
  define t where "t = clock e (if alive s then nowCalls w else Suc (nowCalls w))"
  define ok where "ok = tcp_dial e (tcpDials w) (address s) (checkTimeout s)"
  from assms False show ?thesis
    by (intro that [of "Probed (nat off) t ok"])
       (auto simp add: examine_eq Let_def mark_def s_def t_def ok_def)
qed

lemma run_valid:
  assumes "\<forall>off\<in>set offs. 0 \<le> off \<and> off < int (length (servers c))"
    and "run e offs c w = (r, c', w')"
  shows "\<exists>evs. valid e (checkRetryTimeout c) (servers c) (nowCalls w) (tcpDials w) evs \<and>
           outcome r offs evs \<and>
           c' = c\<lparr>servers := replay evs (servers c)\<rparr> \<and>
           w' = w\<lparr>nowCalls := clock_after (servers c) (nowCalls w) evs,
                  tcpDials := dials_after (tcpDials w) evs,
                  evals := evals w @ evs\<rparr>"
  using assms
proof (induction offs arbitrary: c w)
  case Nil
  then show ?case
    by (intro exI [of _ "[]"]) (auto simp add: outcome_def)
next
  case (Cons off offs)
  from Cons.prems(1) have rng: "0 \<le> off" "off < int (length (servers c))" by simp_all
  obtain ev where ev: "step_ok e (checkRetryTimeout c) (servers c) (nowCalls w) (tcpDials w) ev"
    "ev_offset ev = nat off"
    "examine e off c w =
       (if succeeded ev then Inr (Some off) else Inr None,
        c\<lparr>servers := apply_event ev (servers c)\<rparr>,
        w\<lparr>nowCalls := next_n (servers c) (nowCalls w) ev,
          tcpDials := next_j (tcpDials w) ev,
          evals := evals w @ [ev]\<rparr>)"
    using examine_step [OF rng] by blast
  let ?c1 = "c\<lparr>servers := apply_event ev (servers c)\<rparr>"
  let ?w1 = "w\<lparr>nowCalls := next_n (servers c) (nowCalls w) ev,
          tcpDials := next_j (tcpDials w) ev,
          evals := evals w @ [ev]\<rparr>"
  show ?case
  proof (cases "succeeded ev")
    case True
    with ev(3) Cons.prems(2) have res: "r = Inr (Some off)" "c' = ?c1" "w' = ?w1"
      by simp_all
    show ?thesis
      using ev(1,2) True res
      by (intro exI [of _ "[ev]"]) (simp add: outcome_def)
  next
    case False
    have len: "length (servers ?c1) = length (servers c)"
      by (cases ev) simp_all
    with Cons.prems(1) have rng1: "\<forall>off\<in>set offs. 0 \<le> off \<and> off < int (length (servers ?c1))"
      by simp
    from False ev(3) Cons.prems(2) have "run e offs ?c1 ?w1 = (r, c', w')"
      by simp
    from Cons.IH [OF rng1 this] obtain evs where evs:
      "valid e (checkRetryTimeout ?c1) (servers ?c1) (nowCalls ?w1) (tcpDials ?w1) evs"
      "outcome r offs evs"
      "c' = ?c1\<lparr>servers := replay evs (servers ?c1)\<rparr>"
      "w' = ?w1\<lparr>nowCalls := clock_after (servers ?c1) (nowCalls ?w1) evs,
                  tcpDials := dials_after (tcpDials ?w1) evs,
                  evals := evals ?w1 @ evs\<rparr>"
      by blast
    have "outcome r (off # offs) (ev # evs)"
      using evs(2) False ev(2)
      by (auto simp add: outcome_def butlast_def split: sum.splits option.splits)
    with evs ev(1) show ?thesis
      by (intro exI [of _ "ev # evs"]) simp
  qed
qed

lemma run_append:
  "run e (xs @ ys) c w =
     (case run e xs c w of (Inr None, c1, w1) \<Rightarrow> run e ys c1 w1 | r \<Rightarrow> r)"
proof (induction xs arbitrary: c w)
  case Nil
  show ?case by simp
next
  case (Cons x xs)
  show ?case
    by (cases "examine e x c w" rule: prod_cases3)
       (auto simp add: Cons.IH split: sum.splits option.splits)
qed

lemma scan_run:
  "scan e pool_size starting index c w =
     run e (map (wrap_offset pool_size starting) [index + 1..pool_size - 1]) c w"
proof (induction e pool_size starting index c w rule: scan.induct)
  case (1 e pool_size starting index c w)
  show ?case
  proof (cases "index < pool_size - 1")
    case False
    then show ?thesis by (simp add: scan.simps [of e pool_size starting index])
  next
    case True
    then have up: "[index + 1..pool_size - 1] = (index + 1) # [index + 1 + 1..pool_size - 1]"
      by (simp add: upto_rec1)
    have wo: "(if index + 1 + starting < pool_size then index + 1 + starting
               else index + 1 + starting - pool_size) = wrap_offset pool_size starting (index + 1)"
      by (simp add: wrap_offset_def)
    show ?thesis
    proof (cases "examine e (wrap_offset pool_size starting (index + 1)) c w" rule: prod_cases3)
      case (fields r c1 w1)
      show ?thesis
      proof (cases "r = Inr None")
        case rn: True
        have "scan e pool_size starting (index + 1) c1 w1 =
            run e (map (wrap_offset pool_size starting) [index + 1 + 1..pool_size - 1]) c1 w1"
          using "1.IH" [OF True refl refl, of "Inr None" "(c1, w1)" None c1 w1, folded wrap_offset_def]
            fields rn
          by simp
        with True fields rn up show ?thesis
          by (simp add: scan.simps [of e pool_size starting index] Let_def wo)
      next
        case False
        with True fields up show ?thesis
          by (auto simp add: scan.simps [of e pool_size starting index] Let_def wo
              split: sum.splits option.splits)
      qed
    qed
  qed
qed

lemma passes_run:
  "passes e counter pool_size starting i c w =
     finish (run e (concat (replicate (nat (counter - i)) (cands pool_size starting))) c w)"
proof (induction e counter pool_size starting i c w rule: passes.induct)
  case (1 e counter pool_size starting i c w)
  show ?case
  proof (cases "i < counter")
    case False
    then show ?thesis by (simp add: passes.simps [of e counter pool_size starting i])
  next
    case True
    then have rep: "nat (counter - i) = Suc (nat (counter - (i + 1)))" by simp
    have sc: "scan e pool_size starting (- 1) c w = run e (cands pool_size starting) c w"
      by (simp add: scan_run cands_def)
    show ?thesis
    proof (cases "run e (cands pool_size starting) c w" rule: prod_cases3)
      case (fields r c1 w1)
      show ?thesis
      proof (cases "r = Inr None")
        case rn: True
        have "passes e counter pool_size starting (i + 1) c1 w1 =
            finish (run e (concat (replicate (nat (counter - (i + 1))) (cands pool_size starting))) c1 w1)"
          using "1.IH" [OF True, of "Inr None" "(c1, w1)" None c1 w1] fields rn sc
          by simp
        with True fields rn sc show ?thesis
          by (simp add: passes.simps [of e counter pool_size starting i] rep run_append)
      next
        case False
        with True fields sc show ?thesis
          by (cases r; cases "projr r")
             (auto simp add: passes.simps [of e counter pool_size starting i] rep run_append)
      qed
    qed
  qed
qed

lemma findActiveServer_run:
  "findActiveServer e starting c w =
     finish (run e (concat (replicate 3 (cands (int (length (servers c)))
        (if int (length (servers c)) \<le> starting then 0 else starting)))) c w)"
  by (simp add: findActiveServer_def passes_run Let_def)

lemma Get_run:
  assumes "servers c \<noteq> []"
  shows "serverPool_Get e c w =
     (case finish (run e (offsets c) c w) of
        (Inl err, c1, w1) \<Rightarrow> (Inl err, c1, w1)
      | (Inr serverIndex, c1, w1) \<Rightarrow>
          (if serverIndex < 0 \<or> int (length (servers c1)) \<le> serverIndex
           then (Inl PanicIndexOutOfRange, c1\<lparr>lastUsed := serverIndex\<rparr>, w1)
           else (Inr (address (servers c1 ! nat serverIndex)), c1\<lparr>lastUsed := serverIndex\<rparr>, w1)))"
proof -
  have "offsets c = concat (replicate 3 (cands (int (length (servers c))) 0))" if "strategy c \<noteq> RR"
    using that by (simp add: offsets_def start_index_def)
  moreover have "offsets c = concat (replicate 3 (cands (int (length (servers c)))
        (if int (length (servers c)) \<le> lastUsed c + 1 then 0 else lastUsed c + 1)))" if "strategy c = RR"
    using that by (simp add: offsets_def start_index_def)
  ultimately show ?thesis
    using assms by (cases "strategy c = RR") (simp_all add: serverPool_Get_def findActiveServer_run)
qed

lemma length_apply_event [simp]: "length (apply_event ev ss) = length ss"
  by (cases ev) simp_all

lemma length_replay [simp]: "length (replay evs ss) = length ss"
  by (induction evs arbitrary: ss) simp_all

lemma map_update_same: "(map f ss)[k := f (ss ! k)] = map f ss"
  by (metis list_update_id map_update)

lemma address_apply_event [simp]: "map address (apply_event ev ss) = map address ss"
  by (cases ev) (simp_all add: map_update map_update_same)

lemma checkTimeout_apply_event [simp]: "map checkTimeout (apply_event ev ss) = map checkTimeout ss"
  by (cases ev) (simp_all add: map_update map_update_same)

lemma address_replay [simp]: "map address (replay evs ss) = map address ss"
  by (induction evs arbitrary: ss) simp_all

lemma checkTimeout_replay [simp]: "map checkTimeout (replay evs ss) = map checkTimeout ss"
  by (induction evs arbitrary: ss) simp_all

lemma address_replay_nth: "k < length ss \<Longrightarrow> address (replay evs ss ! k) = address (ss ! k)"
  using address_replay [of evs ss] by (metis length_replay nth_map)

lemma wrap_offset_range:
  assumes "0 \<le> starting" "starting < pool_size" "0 \<le> i" "i < pool_size"
  shows "0 \<le> wrap_offset pool_size starting i \<and> wrap_offset pool_size starting i < pool_size"
  using assms by (simp add: wrap_offset_def)

lemma cands_range:
  assumes "0 \<le> starting" "starting < pool_size" "off \<in> set (cands pool_size starting)"
  shows "0 \<le> off \<and> off < pool_size"
proof -
  from assms(3) obtain i where i: "i \<in> set [0..pool_size - 1]" "off = wrap_offset pool_size starting i"
    unfolding cands_def by (metis (no_types, lifting) imageE list.set_map)
  from i(1) have "0 \<le> i" "i < pool_size" by simp_all
  from wrap_offset_range [OF assms(1,2) this] i(2) show ?thesis by simp
qed

lemma start_index_range:
  assumes "servers c \<noteq> []" "strategy c = RR \<longrightarrow> - 1 \<le> lastUsed c"
  shows "0 \<le> start_index c \<and> start_index c < int (length (servers c))"
  using assms by (auto simp add: start_index_def)

lemma offsets_range:
  assumes "servers c \<noteq> []" "strategy c = RR \<longrightarrow> - 1 \<le> lastUsed c"
  shows "\<forall>off\<in>set (offsets c). 0 \<le> off \<and> off < int (length (servers c))"
  using start_index_range [OF assms] cands_range [of "start_index c" "int (length (servers c))"]
  by (auto simp add: offsets_def)

lemma Get_trace:
  assumes ne: "servers c \<noteq> []" and inv: "strategy c = RR \<longrightarrow> - 1 \<le> lastUsed c"
    and get: "serverPool_Get e c w = (r, c', w')"
  shows "\<exists>evs. valid e (checkRetryTimeout c) (servers c) (nowCalls w) (tcpDials w) evs \<and>
           w' = world_after c w evs \<and>
           ((r = Inl ErrNoActiveServer \<and> c' = c\<lparr>servers := replay evs (servers c)\<rparr> \<and>
             map ev_offset evs = map nat (offsets c) \<and> (\<forall>ev\<in>set evs. \<not> succeeded ev)) \<or>
            (evs \<noteq> [] \<and> succeeded (last evs) \<and> (\<forall>ev\<in>set (butlast evs). \<not> succeeded ev) \<and>
             ev_offset (last evs) < length (servers c) \<and>
             r = Inr (address (servers c ! ev_offset (last evs))) \<and>
             c' = c\<lparr>servers := replay evs (servers c), lastUsed := int (ev_offset (last evs))\<rparr> \<and>
             map ev_offset evs = map nat (take (length evs) (offsets c)) \<and>
             length evs \<le> length (offsets c)))"
proof -
  obtain r0 c0 w1 where run: "run e (offsets c) c w = (r0, c0, w1)"
    by (cases "run e (offsets c) c w" rule: prod_cases3)
  from run_valid [OF offsets_range [OF ne inv] run] obtain evs where evs:
    "valid e (checkRetryTimeout c) (servers c) (nowCalls w) (tcpDials w) evs"
    "outcome r0 (offsets c) evs"
    "c0 = c\<lparr>servers := replay evs (servers c)\<rparr>"
    "w1 = world_after c w evs"
    unfolding world_after_def by blast
  show ?thesis
  proof (cases r0)
    case (Inl err)
    with evs(2) show ?thesis by (simp add: outcome_def)
  next
    case (Inr res)
    show ?thesis
    proof (cases res)
      case None
      with Inr run get ne evs have "r = Inl ErrNoActiveServer" "c' = c0" "w' = w1"
        by (simp_all add: Get_run)
      with evs None Inr show ?thesis
        by (intro exI [of _ evs]) (simp add: outcome_def)
    next
      case (Some off)
      with Inr evs(2) have o: "evs \<noteq> []" "succeeded (last evs)"
        "\<forall>ev\<in>set (butlast evs). \<not> succeeded ev"
        "map ev_offset evs = map nat (take (length evs) (offsets c))"
        "length evs \<le> length (offsets c)" "off = offsets c ! (length evs - 1)"
        by (simp_all add: outcome_def)
      from o(1,5) have lt: "length evs - 1 < length (offsets c)"
        by (cases evs) simp_all
      with o(6) offsets_range [OF ne inv] have rng: "0 \<le> off" "off < int (length (servers c))"
        by (metis nth_mem)+
      from o(1,4) have "ev_offset (last evs) = nat (take (length evs) (offsets c) ! (length evs - 1))"
        by (metis (no_types, lifting) diff_less last_conv_nth last_map length_greater_0_conv length_map
            less_numeral_extra(1) map_is_Nil_conv nth_map)
      with o(1) o(6) have lastoff: "ev_offset (last evs) = nat off"
        by (cases evs) simp_all
      from Some Inr run get ne evs(3,4) rng
      have res: "r = Inr (address (servers c0 ! nat off))" "c' = c0\<lparr>lastUsed := off\<rparr>" "w' = w1"
        by (simp_all add: Get_run)
      from rng have "address (servers c0 ! nat off) = address (servers c ! nat off)"
        by (simp add: evs(3) address_replay_nth)
      with res evs o rng lastoff show ?thesis
        by (intro exI [of _ evs]) simp
    qed
  qed
qed

lemma Get_panics:
  assumes ne: "servers c \<noteq> []" and rr: "strategy c = RR" and neg: "lastUsed c < - 1"
  shows "serverPool_Get e c w = (Inl PanicIndexOutOfRange, c, w)"
proof -
  from ne have pos: "0 < int (length (servers c))" by simp
  from rr neg pos have st: "start_index c = lastUsed c + 1" "start_index c < 0"
    by (simp_all add: start_index_def)
  from pos have "[0..int (length (servers c)) - 1] = 0 # [1..int (length (servers c)) - 1]"
    by (simp add: upto_rec1)
  then obtain rest where "cands (int (length (servers c))) (start_index c) =
      wrap_offset (int (length (servers c))) (start_index c) 0 # rest"
    by (simp add: cands_def)
  moreover from st pos have "wrap_offset (int (length (servers c))) (start_index c) 0 = start_index c"
    by (simp add: wrap_offset_def)
  ultimately obtain rest' where "offsets c = start_index c # rest'"
    by (simp add: offsets_def numeral_3_eq_3)
  with st have "run e (offsets c) c w = (Inl PanicIndexOutOfRange, c, w)"
    by (simp add: examine_def)
  with ne show ?thesis by (simp add: Get_run)
qed

lemma new_evals_world_after [simp]: "new_evals w (world_after c w evs) = evs"
  by (simp add: new_evals_def world_after_def)

lemma new_evals_same [simp]: "new_evals w w = []"
  by (simp add: new_evals_def)

lemma replay_append: "replay (xs @ ys) ss = replay ys (replay xs ss)"
  by (induction xs arbitrary: ss) simp_all

lemma clock_after_append:
  "clock_after ss n (xs @ ys) = clock_after (replay xs ss) (clock_after ss n xs) ys"
  by (induction xs arbitrary: ss n) simp_all

lemma dials_after_append: "dials_after j (xs @ ys) = dials_after (dials_after j xs) ys"
  by (induction xs arbitrary: j) simp_all

lemma dials_after_count: "dials_after j evs = j + length (filter is_probe evs)"
proof (induction evs arbitrary: j)
  case Nil show ?case by simp
next
  case (Cons ev evs) then show ?case by (cases ev) simp_all
qed

lemma valid_append:
  "valid e crt ss n j (xs @ ys) =
     (valid e crt ss n j xs \<and>
      valid e crt (replay xs ss) (clock_after ss n xs) (dials_after j xs) ys)"
  by (induction xs arbitrary: ss n j) auto

lemma succeeded_Probed: "succeeded ev \<Longrightarrow> \<exists>t. ev = Probed (ev_offset ev) t True"
  by (cases ev) simp_all

text \<open>What the three outcomes of a call leave behind.\<close>

lemma Get_cases:
  assumes get: "serverPool_Get e c w = (r, c', w')"
  obtains (untouched) "c' = c" "w' = w" "\<exists>err. r = Inl err"
      "servers c = [] \<or> (strategy c = RR \<and> lastUsed c < - 1)"
  | (exhausted) evs where "servers c \<noteq> []" "strategy c = RR \<longrightarrow> - 1 \<le> lastUsed c"
      "valid e (checkRetryTimeout c) (servers c) (nowCalls w) (tcpDials w) evs"
      "w' = world_after c w evs" "r = Inl ErrNoActiveServer"
      "c' = c\<lparr>servers := replay evs (servers c)\<rparr>"
      "map ev_offset evs = map nat (offsets c)" "\<forall>ev\<in>set evs. \<not> succeeded ev"
  | (found) pre k t where "servers c \<noteq> []" "strategy c = RR \<longrightarrow> - 1 \<le> lastUsed c"
      "valid e (checkRetryTimeout c) (servers c) (nowCalls w) (tcpDials w) (pre @ [Probed k t True])"
      "w' = world_after c w (pre @ [Probed k t True])" "k < length (servers c)"
      "r = Inr (address (servers c ! k))"
      "c' = c\<lparr>servers := replay (pre @ [Probed k t True]) (servers c), lastUsed := int k\<rparr>"
      "\<forall>ev\<in>set pre. \<not> succeeded ev"
      "map ev_offset (pre @ [Probed k t True]) = map nat (take (Suc (length pre)) (offsets c))"
      "Suc (length pre) \<le> length (offsets c)"
proof (cases "servers c = []")
  case True
  with get have "c' = c" "w' = w" "r = Inl ErrPoolEmpty"
    by (simp_all add: serverPool_Get_def)
  with True show ?thesis by (intro untouched) simp_all
next
  case ne: False
  show ?thesis
  proof (cases "strategy c = RR \<and> lastUsed c < - 1")
    case True
    with get Get_panics [OF ne, of e w] have "c' = c" "w' = w" "r = Inl PanicIndexOutOfRange"
      by simp_all
    with True show ?thesis by (intro untouched) simp_all
  next
    case False
    then have inv: "strategy c = RR \<longrightarrow> - 1 \<le> lastUsed c" by auto
    from Get_trace [OF ne inv get] obtain evs where evs:
      "valid e (checkRetryTimeout c) (servers c) (nowCalls w) (tcpDials w) evs"
      "w' = world_after c w evs"
      "(r = Inl ErrNoActiveServer \<and> c' = c\<lparr>servers := replay evs (servers c)\<rparr> \<and>
             map ev_offset evs = map nat (offsets c) \<and> (\<forall>ev\<in>set evs. \<not> succeeded ev)) \<or>
            (evs \<noteq> [] \<and> succeeded (last evs) \<and> (\<forall>ev\<in>set (butlast evs). \<not> succeeded ev) \<and>
             ev_offset (last evs) < length (servers c) \<and>
             r = Inr (address (servers c ! ev_offset (last evs))) \<and>
             c' = c\<lparr>servers := replay evs (servers c), lastUsed := int (ev_offset (last evs))\<rparr> \<and>
             map ev_offset evs = map nat (take (length evs) (offsets c)) \<and>
             length evs \<le> length (offsets c))"
      by blast
    from evs(3) show ?thesis
    proof
      assume "r = Inl ErrNoActiveServer \<and> c' = c\<lparr>servers := replay evs (servers c)\<rparr> \<and>
             map ev_offset evs = map nat (offsets c) \<and> (\<forall>ev\<in>set evs. \<not> succeeded ev)"
      with ne inv evs(1,2) show ?thesis by (intro exhausted [of evs]) simp_all
    next
      assume f: "evs \<noteq> [] \<and> succeeded (last evs) \<and> (\<forall>ev\<in>set (butlast evs). \<not> succeeded ev) \<and>
             ev_offset (last evs) < length (servers c) \<and>
             r = Inr (address (servers c ! ev_offset (last evs))) \<and>
             c' = c\<lparr>servers := replay evs (servers c), lastUsed := int (ev_offset (last evs))\<rparr> \<and>
             map ev_offset evs = map nat (take (length evs) (offsets c)) \<and>
             length evs \<le> length (offsets c)"
      then obtain pre lst where pl: "evs = pre @ [lst]"
        by (metis rev_exhaust)
      with f obtain t where t: "lst = Probed (ev_offset lst) t True"
        using succeeded_Probed [of lst] by auto
      define k where "k = ev_offset lst"
      from t have lst: "lst = Probed k t True" by (simp add: k_def)
      from f have f': "\<forall>ev\<in>set pre. \<not> succeeded ev" "k < length (servers c)"
        "r = Inr (address (servers c ! k))"
        "c' = c\<lparr>servers := replay (pre @ [Probed k t True]) (servers c), lastUsed := int k\<rparr>"
        "map ev_offset (pre @ [Probed k t True]) = map nat (take (Suc (length pre)) (offsets c))"
        "Suc (length pre) \<le> length (offsets c)"
        unfolding pl lst by simp_all
      from evs(1,2) have "valid e (checkRetryTimeout c) (servers c) (nowCalls w) (tcpDials w)
           (pre @ [Probed k t True])" "w' = world_after c w (pre @ [Probed k t True])"
        unfolding pl lst by simp_all
      with ne inv f' show ?thesis
        by (intro found [of pre k t])
    qed
  qed
qed

lemma length_cands: "0 \<le> pool_size \<Longrightarrow> length (cands pool_size starting) = nat pool_size"
  by (simp add: cands_def)

lemma cands_nat:
  assumes "0 \<le> starting" "starting < int N"
  shows "map nat (cands (int N) starting) = [nat starting..<N] @ [0..<nat starting]"
proof (rule nth_equalityI)
  show "length (map nat (cands (int N) starting)) = length ([nat starting..<N] @ [0..<nat starting])"
    using assms by (simp add: length_cands)
next
  fix i assume "i < length (map nat (cands (int N) starting))"
  then have i: "i < N" by (simp add: length_cands)
  then have "[0..int N - 1] ! i = int i"
    by (simp add: nth_upto)
  with i have "map nat (cands (int N) starting) ! i = nat (wrap_offset (int N) starting (int i))"
    by (simp add: cands_def)
  also have "\<dots> = ([nat starting..<N] @ [0..<nat starting]) ! i"
    using assms i by (auto simp add: wrap_offset_def nth_append nat_add_distrib nat_diff_distrib)
  finally show "map nat (cands (int N) starting) ! i = ([nat starting..<N] @ [0..<nat starting]) ! i" .
qed

lemma cands_once:
  assumes "0 \<le> starting" "starting < int N" "k < N"
  shows "length (filter (\<lambda>x. x = k) (map nat (cands (int N) starting))) = 1"
proof -
  have d: "distinct ([nat starting..<N] @ [0..<nat starting])" by auto
  have "{x. x = k} \<inter> set ([nat starting..<N] @ [0..<nat starting]) = {k}"
    using assms by auto
  with distinct_length_filter [OF d, of "\<lambda>x. x = k"] show ?thesis
    by (simp add: cands_nat [OF assms(1,2)])
qed

lemma filter_concat_replicate:
  "length (filter P (concat (replicate m xs))) = m * length (filter P xs)"
  by (induction m) simp_all

lemma offsets_thrice:
  assumes "servers c \<noteq> []" "strategy c = RR \<longrightarrow> - 1 \<le> lastUsed c" "k < length (servers c)"
  shows "length (filter (\<lambda>x. x = k) (map nat (offsets c))) = 3"
proof -
  from start_index_range [OF assms(1,2)]
  have "length (filter (\<lambda>x. x = k) (map nat (cands (int (length (servers c))) (start_index c)))) = 1"
    using assms(3) by (intro cands_once) simp_all
  then show ?thesis
    by (simp add: offsets_def map_concat filter_concat_replicate)
qed

lemma length_offsets: "length (offsets c) = 3 * length (servers c)"
  by (simp add: offsets_def length_concat length_cands sum_list_replicate)

lemma replay_nth:
  assumes "k < length ss"
  shows "replay evs ss ! k =
     (case last_probe k evs of
        None \<Rightarrow> ss ! k
      | Some (t, ok) \<Rightarrow> (ss ! k)\<lparr>lastCheck := t, alive := ok\<rparr>)"
  using assms
proof (induction evs arbitrary: ss)
  case Nil
  show ?case by simp
next
  case (Cons ev evs)
  have len: "k < length (apply_event ev ss)" using Cons.prems by simp
  show ?case
  proof (cases ev)
    case (Skipped k')
    with Cons.IH [OF len] show ?thesis
      by (simp split: option.splits)
  next
    case (Probed k' t ok)
    with Cons.IH [OF len] Cons.prems show ?thesis
      by (auto simp add: nth_list_update split: option.splits)
  qed
qed

lemma last_probe_mem: "last_probe k evs = Some (t, ok) \<Longrightarrow> Probed k t ok \<in> set evs"
  by (induction evs) (auto split: option.splits event.splits if_splits)

lemma next_n_gt: "n < next_n ss n ev"
  by (cases ev) simp_all

lemma next_j_ge: "j \<le> next_j j ev"
  by (cases ev) simp_all

lemma clock_after_ge: "n \<le> clock_after ss n evs"
proof (induction evs arbitrary: ss n)
  case Nil show ?case by simp
next
  case (Cons ev evs)
  from Cons.IH [of "next_n ss n ev" "apply_event ev ss"] next_n_gt [of n ss ev]
  show ?case by simp
qed

lemma dials_after_ge: "j \<le> dials_after j evs"
  by (simp add: dials_after_count)

lemma valid_offset_range:
  assumes "valid e crt ss n j evs" "ev \<in> set evs"
  shows "ev_offset ev < length ss"
  using assms
proof (induction evs arbitrary: ss n j)
  case Nil
  then show ?case by simp
next
  case (Cons x evs)
  show ?case
  proof (cases "ev = x")
    case True
    with Cons.prems(1) show ?thesis by (cases x) simp_all
  next
    case False
    with Cons.prems have "valid e crt (apply_event x ss) (next_n ss n x) (next_j j x) evs" "ev \<in> set evs"
      by simp_all
    from Cons.IH [OF this] show ?thesis by simp
  qed
qed

lemma address_apply_event_nth: "k < length ss \<Longrightarrow> address (apply_event ev ss ! k) = address (ss ! k)"
  using address_apply_event [of ev ss] by (metis length_apply_event nth_map)

lemma checkTimeout_apply_event_nth:
  "k < length ss \<Longrightarrow> checkTimeout (apply_event ev ss ! k) = checkTimeout (ss ! k)"
  using checkTimeout_apply_event [of ev ss] by (metis length_apply_event nth_map)

lemma valid_probe_real:
  assumes "valid e crt ss n j evs" "Probed k t ok \<in> set evs"
  shows "\<exists>n' m. n \<le> n' \<and> n' < clock_after ss n evs \<and> t = clock e n' \<and>
           j \<le> m \<and> m < dials_after j evs \<and>
           ok = tcp_dial e m (address (ss ! k)) (checkTimeout (ss ! k))"
  using assms
proof (induction evs arbitrary: ss n j)
  case Nil
  then show ?case by simp
next
  case (Cons x evs)
  let ?ss = "apply_event x ss" and ?n = "next_n ss n x" and ?j = "next_j j x"
  from Cons.prems(1) have v: "valid e crt ?ss ?n ?j evs" and s: "step_ok e crt ss n j x"
    by simp_all
  from valid_offset_range [OF Cons.prems] have k: "k < length ss" by simp
  show ?case
  proof (cases "Probed k t ok \<in> set evs")
    case True
    from Cons.IH [OF v True] obtain n' m where nm: "?n \<le> n'" "n' < clock_after ?ss ?n evs"
      "t = clock e n'" "?j \<le> m" "m < dials_after ?j evs"
      "ok = tcp_dial e m (address (?ss ! k)) (checkTimeout (?ss ! k))"
      by blast
    from nm(1) next_n_gt [of n ss x] have "n \<le> n'" by simp
    moreover from nm(4) next_j_ge [of j x] have "j \<le> m" by simp
    ultimately show ?thesis
      using nm k
      by (auto simp add: address_apply_event_nth checkTimeout_apply_event_nth
          simp del: next_n.simps next_j.simps)
  next
    case False
    with Cons.prems(2) have x: "x = Probed k t ok" by simp
    define n' where "n' = (if alive (ss ! k) then n else Suc n)"
    from x s have "t = clock e n'" "ok = tcp_dial e j (address (ss ! k)) (checkTimeout (ss ! k))"
      by (simp_all add: n'_def)
    moreover have "n \<le> n'" "Suc n' = ?n" "Suc j = ?j" by (simp_all add: n'_def x)
    moreover have "?n \<le> clock_after ?ss ?n evs" by (rule clock_after_ge)
    moreover have "?j \<le> dials_after ?j evs" by (rule dials_after_ge)
    ultimately have "n \<le> n' \<and> n' < clock_after ss n (x # evs) \<and> t = clock e n' \<and>
           j \<le> j \<and> j < dials_after j (x # evs) \<and>
           ok = tcp_dial e j (address (ss ! k)) (checkTimeout (ss ! k))"
      by (simp del: next_n.simps next_j.simps)
    then show ?thesis by blast
  qed
qed

text \<open>The record of a call is justified from the state at the call.\<close>

lemma Get_valid:
  assumes "serverPool_Get e c w = (r, c', w')"
  shows "valid e (checkRetryTimeout c) (servers c) (nowCalls w) (tcpDials w) (new_evals w w') \<and>
         servers c' = replay (new_evals w w') (servers c) \<and>
         nowCalls w' = clock_after (servers c) (nowCalls w) (new_evals w w') \<and>
         tcpDials w' = dials_after (tcpDials w) (new_evals w w') \<and>
         evals w' = evals w @ new_evals w w' \<and>
         strategy c' = strategy c \<and> checkRetryTimeout c' = checkRetryTimeout c"
  using assms
proof (cases rule: Get_cases)
  case untouched
  then show ?thesis by simp
next
  case (exhausted evs)
  then show ?thesis by (simp add: world_after_def new_evals_def)
next
  case (found pre k t)
  then show ?thesis by (simp add: world_after_def new_evals_def)
qed

lemma time_Sub_mono: "t1 \<le> t2 \<Longrightarrow> time_Sub t1 u \<le> time_Sub t2 u"
  by (simp add: time_Sub_def minDuration_def maxDuration_def)

lemma add_servers_eq:
  "add_servers e ct as c w =
     (c\<lparr>servers := servers c @ fresh_servers e ct (nowCalls w) as\<rparr>,
      w\<lparr>nowCalls := nowCalls w + length as\<rparr>)"
  by (induction as arbitrary: c w) (simp_all add: time_Now_def)

lemma length_fresh_servers [simp]: "length (fresh_servers e ct n as) = length as"
  by (induction as arbitrary: n) simp_all

lemma address_fresh_servers [simp]: "map address (fresh_servers e ct n as) = as"
  by (induction as arbitrary: n) simp_all

lemma alive_fresh_servers: "s \<in> set (fresh_servers e ct n as) \<Longrightarrow> alive s"
  by (induction as arbitrary: n) auto

lemma fresh_servers_nth:
  "i < length as \<Longrightarrow> fresh_servers e ct n as ! i =
     \<lparr>address = as ! i, alive = True, checkTimeout = ct, lastCheck = clock e (n + i)\<rparr>"
proof (induction as arbitrary: n i)
  case Nil
  then show ?case by simp
next
  case (Cons a as)
  then show ?case by (cases i) simp_all
qed

lemma NewServerPool_eq:
  assumes "srvs \<noteq> []"
  shows "NewServerPool e srvs checkRetry serverCheck roundrobin w =
     (Inr \<lparr>servers = fresh_servers e (duration_ms serverCheck) (nowCalls w) srvs,
           lastUsed = - 1, strategy = (if roundrobin then RR else FIRST),
           checkRetryTimeout = duration_ms checkRetry\<rparr>,
      w\<lparr>nowCalls := nowCalls w + length srvs\<rparr>)"
  using assms by (simp add: NewServerPool_def add_servers_eq)

lemma NewServerPool_empty:
  "NewServerPool e [] checkRetry serverCheck roundrobin w = (Inl ErrServerListEmpty, w)"
  by (simp add: NewServerPool_def)

lemma valid_skip_after_fail:
  assumes v: "valid e crt ss n j (pre @ Skipped k # post)" and al: "\<forall>s\<in>set ss. alive s"
  shows "\<exists>t. Probed k t False \<in> set pre"
proof -
  from v have "step_ok e crt (replay pre ss) (clock_after ss n pre) (dials_after j pre) (Skipped k)"
    by (simp add: valid_append)
  then have k: "k < length ss" and dead: "\<not> alive (replay pre ss ! k)"
    by simp_all
  from al k have "alive (ss ! k)" by simp
  with dead replay_nth [OF k, of pre] obtain t ok where lp: "last_probe k pre = Some (t, ok)" "\<not> ok"
    by (cases "last_probe k pre") auto
  from last_probe_mem [OF lp(1)] lp(2) show ?thesis by auto
qed

lemma take_offsets:
  "take (length (servers c)) (offsets c) = cands (int (length (servers c))) (start_index c)"
  by (simp add: offsets_def numeral_3_eq_3 length_cands)

lemma distinct_first_pass:
  assumes "servers c \<noteq> []" "strategy c = RR \<longrightarrow> - 1 \<le> lastUsed c"
  shows "distinct (map nat (take (length (servers c)) (offsets c)))"
proof -
  from start_index_range [OF assms]
  have "map nat (cands (int (length (servers c))) (start_index c)) =
      [nat (start_index c)..<length (servers c)] @ [0..<nat (start_index c)]"
    by (intro cands_nat) simp_all
  then show ?thesis by (auto simp add: take_offsets)
qed

lemma first_pass_probes:
  assumes ne: "servers c \<noteq> []" and inv: "strategy c = RR \<longrightarrow> - 1 \<le> lastUsed c"
    and al: "\<forall>s\<in>set (servers c). alive s"
    and v: "valid e crt (servers c) n j evs"
    and offs: "map ev_offset evs = map nat (take (length evs) (offsets c))"
    and ev: "ev \<in> set (take (length (servers c)) evs)"
  shows "is_probe ev"
proof (rule ccontr)
  assume "\<not> is_probe ev"
  then have sk: "ev = Skipped (ev_offset ev)" by (cases ev) simp_all
  define N where "N = length (servers c)"
  from ev obtain i where i: "i < length evs" "i < N" "evs ! i = ev"
    by (auto simp add: in_set_conv_nth N_def)
  define k where "k = ev_offset ev"
  from i have split: "evs = take i evs @ Skipped k # drop (Suc i) evs"
    using sk by (metis id_take_nth_drop k_def)
  from valid_skip_after_fail [of e crt "servers c" n j "take i evs" k "drop (Suc i) evs"] v al split
  obtain t where "Probed k t False \<in> set (take i evs)" by auto
  then obtain i' where i': "i' < i" "evs ! i' = Probed k t False"
    using i(1) by (auto simp add: in_set_conv_nth)
  have d: "distinct (map nat (take N (offsets c)))"
    unfolding N_def by (rule distinct_first_pass [OF ne inv])
  have "take N (map ev_offset evs) = take N (map nat (take (length evs) (offsets c)))"
    using offs by simp
  also have "\<dots> = take (length evs) (map nat (take N (offsets c)))"
    by (simp add: take_map take_take min.commute)
  finally have "distinct (take N (map ev_offset evs))"
    using d by simp
  moreover have "i < length (take N (map ev_offset evs))" "i' < length (take N (map ev_offset evs))"
    using i i' by simp_all
  moreover have "take N (map ev_offset evs) ! i = k" "take N (map ev_offset evs) ! i' = k"
    using i i' by (simp_all add: k_def)
  ultimately have "i = i'"
    by (metis nth_eq_iff_index_eq)
  with i' show False by simp
qed

lemma offsets_head:
  assumes "servers c \<noteq> []" "start_index c < int (length (servers c))"
  shows "\<exists>rest. offsets c = start_index c # rest"
proof -
  from assms(1) have pos: "0 < int (length (servers c))" by simp
  then have "[0..int (length (servers c)) - 1] = 0 # [1..int (length (servers c)) - 1]"
    by (simp add: upto_rec1)
  then obtain rest where "cands (int (length (servers c))) (start_index c) =
      wrap_offset (int (length (servers c))) (start_index c) 0 # rest"
    by (simp add: cands_def)
  moreover from assms(2) have "wrap_offset (int (length (servers c))) (start_index c) 0 = start_index c"
    by (simp add: wrap_offset_def)
  ultimately show ?thesis
    by (simp add: offsets_def numeral_3_eq_3)
qed

lemma Get_rr_step:
  assumes ne: "servers c \<noteq> []" and rr: "strategy c = RR"
    and lo: "- 1 \<le> lastUsed c" and hi: "lastUsed c < int (length (servers c))"
    and al: "\<forall>s\<in>set (servers c). alive s"
    and up: "\<forall>a d. tcp_dial e (tcpDials w) a d"
    and k: "k = nat ((lastUsed c + 1) mod int (length (servers c)))"
  shows "serverPool_Get e c w =
     (Inr (address (servers c ! k)),
      (mark k (clock e (nowCalls w)) True c)\<lparr>lastUsed := int k\<rparr>,
      w\<lparr>nowCalls := Suc (nowCalls w), tcpDials := Suc (tcpDials w),
        evals := evals w @ [Probed k (clock e (nowCalls w)) True]\<rparr>)"
proof -
  from ne have pos: "0 < int (length (servers c))" by simp
  have st: "start_index c = (lastUsed c + 1) mod int (length (servers c))"
  proof (cases "int (length (servers c)) \<le> lastUsed c + 1")
    case True
    with hi have "lastUsed c + 1 = int (length (servers c))" by simp
    with True rr show ?thesis by (simp add: start_index_def)
  next
    case False
    with rr lo show ?thesis by (simp add: start_index_def)
  qed
  with pos have rng: "0 \<le> start_index c" "start_index c < int (length (servers c))"
    by simp_all
  from st k have ki: "int k = start_index c" "k = nat (start_index c)" using rng by simp_all
  from rng ki(2) have kl: "k < length (servers c)" by linarith
  with al have ak: "alive (servers c ! k)" by simp
  from offsets_head [OF ne rng(2)] obtain rest where rest: "offsets c = start_index c # rest" ..
  have "examine e (start_index c) c w =
      (Inr (Some (start_index c)), mark k (clock e (nowCalls w)) True c,
       w\<lparr>nowCalls := Suc (nowCalls w), tcpDials := Suc (tcpDials w),
         evals := evals w @ [Probed k (clock e (nowCalls w)) True]\<rparr>)"
    using ak up by (simp add: examine_eq [OF rng] ki(2) [symmetric] Let_def)
  with rest have "run e (offsets c) c w =
      (Inr (Some (start_index c)), mark k (clock e (nowCalls w)) True c,
       w\<lparr>nowCalls := Suc (nowCalls w), tcpDials := Suc (tcpDials w),
         evals := evals w @ [Probed k (clock e (nowCalls w)) True]\<rparr>)"
    by simp
  moreover have "length (servers (mark k (clock e (nowCalls w)) True c)) = length (servers c)"
    "address (servers (mark k (clock e (nowCalls w)) True c) ! k) = address (servers c ! k)"
    using kl by (simp_all add: mark_def)
  moreover from rng have "\<not> start_index c < 0" "\<not> int (length (servers c)) \<le> start_index c"
    by simp_all
  ultimately show ?thesis
    using ne ki(1) [symmetric] by (simp add: Get_run ki(2) [symmetric])
qed

lemma mark_facts:
  assumes "k < length (servers c)"
  shows "length (servers (mark k t ok c)) = length (servers c)"
    and "map address (servers (mark k t ok c)) = map address (servers c)"
    and "strategy (mark k t ok c) = strategy c"
    and "ok \<Longrightarrow> \<forall>s\<in>set (servers c). alive s \<Longrightarrow> \<forall>s\<in>set (servers (mark k t ok c)). alive s"
  using assms
  by (auto simp add: mark_def map_update map_update_same dest!: set_update_subset_insert [THEN subsetD])

lemma Get_times_rr:
  assumes ne: "servers c \<noteq> []" and rr: "strategy c = RR"
    and lo: "- 1 \<le> lastUsed c" and hi: "lastUsed c < int (length (servers c))"
    and al: "\<forall>s\<in>set (servers c). alive s"
    and up: "\<forall>m a d. tcp_dial e m a d"
  shows "fst (Get_times e m c w) =
           map (\<lambda>i. (Inr (map address (servers c) ! nat ((lastUsed c + 1 + int i) mod int (length (servers c)))),
                     (lastUsed c + 1 + int i) mod int (length (servers c)))) [0..<m] \<and>
         evals (snd (snd (Get_times e m c w))) =
           evals w @ map (\<lambda>i. Probed (nat ((lastUsed c + 1 + int i) mod int (length (servers c))))
                                (clock e (nowCalls w + i)) True) [0..<m]"
  using assms
proof (induction m arbitrary: c w)
  case 0
  show ?case by simp
next
  case (Suc m)
  define N where "N = int (length (servers c))"
  define k where "k = nat ((lastUsed c + 1) mod N)"
  define c1 where "c1 = (mark k (clock e (nowCalls w)) True c)\<lparr>lastUsed := int k\<rparr>"
  define w1 where "w1 = w\<lparr>nowCalls := Suc (nowCalls w), tcpDials := Suc (tcpDials w),
        evals := evals w @ [Probed k (clock e (nowCalls w)) True]\<rparr>"
  from Suc.prems(1) have pos: "0 < N" by (simp add: N_def)
  then have ki: "int k = (lastUsed c + 1) mod N" by (simp add: k_def)
  with pos have kl: "k < length (servers c)"
    by (metis N_def Euclidean_Rings.pos_mod_bound of_nat_less_iff)
  have step: "serverPool_Get e c w = (Inr (address (servers c ! k)), c1, w1)"
    using Get_rr_step [OF Suc.prems(1-5), of e w k] Suc.prems(6)
    by (simp add: k_def N_def c1_def w1_def)
  note mf = mark_facts [OF kl, where t = "clock e (nowCalls w)" and ok = True]
  have c1: "servers c1 \<noteq> []" "strategy c1 = RR" "- 1 \<le> lastUsed c1"
    "lastUsed c1 < int (length (servers c1))" "\<forall>s\<in>set (servers c1). alive s"
    "map address (servers c1) = map address (servers c)" "int (length (servers c1)) = N"
    "lastUsed c1 = int k"
    using mf Suc.prems(1,2,5) kl by (auto simp add: c1_def N_def)
  note IH = Suc.IH [OF c1(1-5) Suc.prems(6), of w1]
  have idx: "(lastUsed c1 + 1 + int i) mod N = (lastUsed c + 1 + int (Suc i)) mod N" for i
  proof -
    have "(lastUsed c1 + 1 + int i) mod N = ((lastUsed c + 1) mod N + (1 + int i)) mod N"
      by (simp add: c1(8) ki add.assoc)
    also have "\<dots> = (lastUsed c + 1 + (1 + int i)) mod N"
      by (simp add: mod_add_left_eq)
    finally show ?thesis by (simp add: add.commute add.left_commute)
  qed
  have now: "nowCalls w1 + i = nowCalls w + Suc i" for i by (simp add: w1_def)
  have z: "(lastUsed c + 1 + int 0) mod N = int k" "nat ((lastUsed c + 1 + int 0) mod N) = k"
    using pos by (simp_all add: ki k_def)
  have adr: "address (servers c ! k) = map address (servers c) ! k" using kl by simp
  obtain rs c2 w2 where g: "Get_times e m c1 w1 = (rs, c2, w2)"
    by (cases "Get_times e m c1 w1" rule: prod_cases3)
  from IH g have rs: "rs = map (\<lambda>i. (Inr (map address (servers c) ! nat ((lastUsed c + 1 + int (Suc i)) mod N)),
                     (lastUsed c + 1 + int (Suc i)) mod N)) [0..<m]"
    and ev: "evals w2 = evals w1 @ map (\<lambda>i. Probed (nat ((lastUsed c + 1 + int (Suc i)) mod N))
                                (clock e (nowCalls w + Suc i)) True) [0..<m]"
    by (simp_all add: c1(6,7) idx now)
  have "fst (Get_times e (Suc m) c w) = (Inr (address (servers c ! k)), int k) # rs"
    using step g by (simp add: c1(8))
  moreover have "evals (snd (snd (Get_times e (Suc m) c w))) = evals w2"
    using step g by simp
  moreover have "evals w1 = evals w @ [Probed k (clock e (nowCalls w)) True]"
    by (simp add: w1_def)
  ultimately show ?case
    unfolding map_upt_Suc N_def [symmetric] using rs ev z adr
    by (simp del: upt_Suc of_nat_Suc)
qed

lemma last_probe_exists:
  "Probed k t ok \<in> set evs \<Longrightarrow> \<exists>t' ok'. last_probe k evs = Some (t', ok')"
  by (induction evs) (auto split: option.splits)

lemma valid_reprobe_after_timeout:
  assumes v: "valid e crt ss n j (pre @ [Probed k t True])"
    and nos: "\<forall>ev\<in>set pre. \<not> succeeded ev"
    and failed: "Probed k t1 False \<in> set pre"
  shows "\<exists>t2. last_probe k pre = Some (t2, False) \<and>
           crt \<le> time_Sub (clock e (clock_after ss n pre)) t2"
proof -
  from last_probe_exists [OF failed] obtain t2 ok2 where lp: "last_probe k pre = Some (t2, ok2)"
    by blast
  from last_probe_mem [OF lp] nos have ok2: "\<not> ok2" by auto
  from v have st: "step_ok e crt (replay pre ss) (clock_after ss n pre) (dials_after j pre) (Probed k t True)"
    by (simp add: valid_append)
  then have k: "k < length ss" by simp
  from replay_nth [OF k, of pre] lp ok2
  have "\<not> alive (replay pre ss ! k)" "lastCheck (replay pre ss ! k) = t2"
    by simp_all
  with st have "crt \<le> time_Sub (clock e (clock_after ss n pre)) t2"
    by simp
  with lp ok2 show ?thesis by simp
qed

text \<open>
  The bounds on \<open>lastUsed\<close> that the claims assume hold in every state that the
  program reaches: \<^verbatim>\<open>NewServerPool\<close> sets \<open>-1\<close> and \<^verbatim>\<open>Get\<close> keeps them.
\<close>

lemma Get_keeps_lastUsed_bounds:
  assumes "serverPool_Get e c w = (r, c', w')"
    and "- 1 \<le> lastUsed c" "lastUsed c < int (length (servers c))"
  shows "- 1 \<le> lastUsed c' \<and> lastUsed c' < int (length (servers c'))"
  using assms(1)
proof (cases rule: Get_cases)
  case untouched
  with assms show ?thesis by simp
next
  case (exhausted evs)
  with assms show ?thesis by simp
next
  case (found pre k t)
  then show ?thesis by simp
qed

section \<open>Claims about the server pool\<close>

text \<open>
  C1, as amended. A call of \<^verbatim>\<open>serverPool.Get\<close> that returns an address returns the address of an
  entry whose most recent probe within this call succeeded: the last evaluation of the
  call is a probe of the returned index that succeeded, no evaluation before it in the
  call was a successful probe, the entry is marked alive with the time of that probe,
  the index is the new \<open>lastUsed\<close>, and the success is the answer of the last TCP dial of
  the call. Over the three passes the entry returned may have failed an earlier probe
  of the same call, but only when at least \<open>checkRetryTimeout\<close> had passed since its last
  failed probe when it was probed again.
\<close>

theorem C1_selected_server_passed_its_probe:
  assumes "serverPool_Get e c w = (Inr a, c', w')"
  shows "\<exists>k t pre. k < length (servers c) \<and> a = address (servers c ! k) \<and>
           lastUsed c' = int k \<and>
           new_evals w w' = pre @ [Probed k t True] \<and> (\<forall>ev\<in>set pre. \<not> succeeded ev) \<and>
           alive (servers c' ! k) \<and> lastCheck (servers c' ! k) = t \<and>
           tcpDials w < tcpDials w' \<and>
           tcp_dial e (tcpDials w' - 1) a (checkTimeout (servers c ! k)) \<and>
           (\<forall>t1. Probed k t1 False \<in> set pre \<longrightarrow>
              (\<exists>t2. last_probe k pre = Some (t2, False) \<and>
                 checkRetryTimeout c
                   \<le> time_Sub (clock e (clock_after (servers c) (nowCalls w) pre)) t2))"
  using assms
proof (cases rule: Get_cases)
  case untouched
  then show ?thesis by simp
next
  case (exhausted evs)
  then show ?thesis by simp
next
  case (found pre k t)
  let ?ss = "replay pre (servers c)"
  have k: "k < length ?ss" using found(5) by simp
  from found(3) have "step_ok e (checkRetryTimeout c) ?ss
      (clock_after (servers c) (nowCalls w) pre) (dials_after (tcpDials w) pre) (Probed k t True)"
    by (simp add: valid_append)
  then have dial: "tcp_dial e (dials_after (tcpDials w) pre) (address (?ss ! k)) (checkTimeout (?ss ! k))"
    by simp
  have addr: "address (?ss ! k) = address (servers c ! k)"
    using found(5) by (simp add: address_replay_nth)
  have cto: "checkTimeout (?ss ! k) = checkTimeout (servers c ! k)"
    using checkTimeout_replay [of pre "servers c"] found(5) by (metis length_replay nth_map)
  have dials: "tcpDials w' = Suc (dials_after (tcpDials w) pre)"
    using found(4) by (simp add: world_after_def dials_after_append)
  have le: "tcpDials w \<le> dials_after (tcpDials w) pre"
    by (simp add: dials_after_count)
  from found(6) assms have a: "a = address (servers c ! k)" by simp
  have "new_evals w w' = pre @ [Probed k t True]"
    using found(4) by simp
  moreover have "alive (servers c' ! k)" "lastCheck (servers c' ! k) = t"
    using found(7) k by (simp_all add: replay_append)
  moreover have "lastUsed c' = int k" using found(7) by simp
  moreover have "\<forall>t1. Probed k t1 False \<in> set pre \<longrightarrow>
              (\<exists>t2. last_probe k pre = Some (t2, False) \<and>
                 checkRetryTimeout c
                   \<le> time_Sub (clock e (clock_after (servers c) (nowCalls w) pre)) t2)"
    using valid_reprobe_after_timeout [OF found(3,8)] by blast
  ultimately show ?thesis
    using found(5,8) a dial addr cto dials le
    by (intro exI [of _ k] exI [of _ t] exI [of _ pre]) simp
qed

theorem C1_witness:
  "serverPool_Get ex_env ex_pool ex_world = (Inr ''b'', ex_pool', ex_world') \<and>
   (\<exists>k t pre. k < length (servers ex_pool) \<and> ''b'' = address (servers ex_pool ! k) \<and>
           lastUsed ex_pool' = int k \<and>
           new_evals ex_world ex_world' = pre @ [Probed k t True] \<and> (\<forall>ev\<in>set pre. \<not> succeeded ev) \<and>
           alive (servers ex_pool' ! k) \<and> lastCheck (servers ex_pool' ! k) = t \<and>
           tcpDials ex_world < tcpDials ex_world' \<and>
           tcp_dial ex_env (tcpDials ex_world' - 1) ''b'' (checkTimeout (servers ex_pool ! k)) \<and>
           (\<forall>t1. Probed k t1 False \<in> set pre \<longrightarrow>
              (\<exists>t2. last_probe k pre = Some (t2, False) \<and>
                 checkRetryTimeout ex_pool
                   \<le> time_Sub (clock ex_env (clock_after (servers ex_pool) (nowCalls ex_world) pre)) t2))) \<and>
   serverPool_Get ex_env_flap ex_pool_eager ex_world = (Inr ''a'', ex_pool_flap, ex_world_flap) \<and>
   new_evals ex_world ex_world_flap = [Probed 0 2 False, Probed 1 3 False] @ [Probed 0 5 True] \<and>
   (\<exists>t2. last_probe 0 [Probed 0 2 False, Probed 1 3 False] = Some (t2, False) \<and>
      checkRetryTimeout ex_pool_eager
        \<le> time_Sub (clock ex_env_flap
             (clock_after (servers ex_pool_eager) (nowCalls ex_world) [Probed 0 2 False, Probed 1 3 False])) t2)"
proof -
  have h: "serverPool_Get ex_env ex_pool ex_world = (Inr ''b'', ex_pool', ex_world')"
    by code_simp
  have g: "serverPool_Get ex_env_flap ex_pool_eager ex_world = (Inr ''a'', ex_pool_flap, ex_world_flap)"
    by code_simp
  have s: "new_evals ex_world ex_world_flap = [Probed 0 2 False, Probed 1 3 False] @ [Probed 0 5 True]"
    by (simp add: new_evals_def ex_world_def ex_world_flap_def)
  from C1_selected_server_passed_its_probe [OF g] obtain k t pre where
    k: "new_evals ex_world ex_world_flap = pre @ [Probed k t True]"
      "\<forall>t1. Probed k t1 False \<in> set pre \<longrightarrow>
         (\<exists>t2. last_probe k pre = Some (t2, False) \<and>
            checkRetryTimeout ex_pool_eager
              \<le> time_Sub (clock ex_env_flap (clock_after (servers ex_pool_eager) (nowCalls ex_world) pre)) t2)"
    by blast
  from k(1) s have p: "pre = [Probed 0 2 False, Probed 1 3 False]" "k = 0" by simp_all
  have "Probed 0 2 False \<in> set [Probed 0 2 False, Probed 1 3 False]" by simp
  with k(2) p have f: "\<exists>t2. last_probe 0 [Probed 0 2 False, Probed 1 3 False] = Some (t2, False) \<and>
      checkRetryTimeout ex_pool_eager
        \<le> time_Sub (clock ex_env_flap
             (clock_after (servers ex_pool_eager) (nowCalls ex_world) [Probed 0 2 False, Probed 1 3 False])) t2"
    by blast
  from C1_selected_server_passed_its_probe [OF h] h g s f show ?thesis by blast
qed

text \<open>
  The claim C1 as it was stated fails: a call can return the address of a server whose
  probe failed during that call. With the retry timeout of zero and the server \<open>a\<close>
  answering the third TCP dial only, the first call on the fresh pool probes \<open>a\<close> and
  \<open>b\<close> in the first pass, both without an answer, probes \<open>a\<close> again in the second pass and
  returns it: the record of the call holds a failed probe of the index returned.
\<close>

theorem C1_counterexample:
  "NewServerPool ex_env_flap [''a'', ''b''] 0 200 True ex_world0 = (Inr ex_pool_eager, ex_world) \<and>
   serverPool_Get ex_env_flap ex_pool_eager ex_world = (Inr ''a'', ex_pool_flap, ex_world_flap) \<and>
   address (servers ex_pool_eager ! 0) = ''a'' \<and>
   new_evals ex_world ex_world_flap = [Probed 0 2 False, Probed 1 3 False, Probed 0 5 True] \<and>
   Probed 0 2 False \<in> set (new_evals ex_world ex_world_flap) \<and>
   \<not> tcp_dial ex_env_flap (tcpDials ex_world) ''a'' (checkTimeout (servers ex_pool_eager ! 0))"
proof -
  have h1: "NewServerPool ex_env_flap [''a'', ''b''] 0 200 True ex_world0 = (Inr ex_pool_eager, ex_world)"
    by code_simp
  have h2: "serverPool_Get ex_env_flap ex_pool_eager ex_world = (Inr ''a'', ex_pool_flap, ex_world_flap)"
    by code_simp
  have a: "address (servers ex_pool_eager ! 0) = ''a''"
    by (simp add: ex_pool_eager_def)
  have s: "new_evals ex_world ex_world_flap = [Probed 0 2 False, Probed 1 3 False, Probed 0 5 True]"
    by (simp add: new_evals_def ex_world_def ex_world_flap_def)
  have n: "\<not> tcp_dial ex_env_flap (tcpDials ex_world) ''a'' (checkTimeout (servers ex_pool_eager ! 0))"
    by (simp add: ex_env_flap_def ex_world_def)
  from h1 h2 a s n show ?thesis by simp
qed

text \<open>
  C2. When every TCP dial made during the call fails, a call on a pool of
  \<open>N \<ge> 1\<close> servers returns the error "no active ldap server found" after exactly
  \<open>3 * N\<close> candidate evaluations, three of each server (skips and probes together), and
  so after at most \<open>3 * N\<close> probes.
\<close>

theorem C2_all_probes_fail_exhaustion:
  assumes ne: "servers c \<noteq> []"
    and inv: "strategy c = RR \<longrightarrow> - 1 \<le> lastUsed c"
    and fail: "\<forall>m a d. tcpDials w \<le> m \<and> m < tcpDials w' \<longrightarrow> \<not> tcp_dial e m a d"
    and get: "serverPool_Get e c w = (r, c', w')"
  shows "r = Inl ErrNoActiveServer \<and>
         length (new_evals w w') = 3 * length (servers c) \<and>
         (\<forall>k<length (servers c). length (filter (\<lambda>ev. ev_offset ev = k) (new_evals w w')) = 3) \<and>
         tcpDials w' - tcpDials w = length (filter is_probe (new_evals w w')) \<and>
         tcpDials w' - tcpDials w \<le> 3 * length (servers c)"
  using get
proof (cases rule: Get_cases)
  case untouched
  with ne inv show ?thesis by auto
next
  case (found pre k t)
  have "tcpDials w' = dials_after (tcpDials w) (pre @ [Probed k t True])"
    using found(4) by (simp add: world_after_def)
  with valid_probe_real [OF found(3), of k t True] fail show ?thesis
    by auto
next
  case (exhausted evs)
  have len: "length evs = 3 * length (servers c)"
    using exhausted(7) length_offsets [of c] by (metis length_map)
  have cnt: "length (filter (\<lambda>ev. ev_offset ev = k) evs) = 3" if "k < length (servers c)" for k
  proof -
    have "length (filter (\<lambda>ev. ev_offset ev = k) evs) =
        length (filter (\<lambda>x. x = k) (map ev_offset evs))"
      by (simp add: filter_map comp_def)
    also have "\<dots> = 3"
      using offsets_thrice [OF ne inv that] exhausted(7) by simp
    finally show ?thesis .
  qed
  have dials: "tcpDials w' - tcpDials w = length (filter is_probe evs)"
    using exhausted(4) by (simp add: world_after_def dials_after_count)
  have "length (filter is_probe evs) \<le> length evs" by simp
  with len dials cnt exhausted(4,5) show ?thesis by simp
qed

theorem C2_witness:
  "serverPool_Get ex_env_down ex_pool ex_world = (Inl ErrNoActiveServer, ex_pool_down, ex_world_down) \<and>
   length (new_evals ex_world ex_world_down) = 3 * length (servers ex_pool) \<and>
   length (filter (\<lambda>ev. ev_offset ev = 0) (new_evals ex_world ex_world_down)) = 3 \<and>
   length (filter (\<lambda>ev. ev_offset ev = 1) (new_evals ex_world ex_world_down)) = 3 \<and>
   tcpDials ex_world_down - tcpDials ex_world = length (filter is_probe (new_evals ex_world ex_world_down)) \<and>
   tcpDials ex_world_down - tcpDials ex_world \<le> 3 * length (servers ex_pool)"
proof -
  have h1: "servers ex_pool \<noteq> []" by (simp add: ex_pool_def)
  have h2: "strategy ex_pool = RR \<longrightarrow> - 1 \<le> lastUsed ex_pool" by (simp add: ex_pool_def)
  have h3: "\<forall>m a d. tcpDials ex_world \<le> m \<and> m < tcpDials ex_world_down \<longrightarrow> \<not> tcp_dial ex_env_down m a d"
    by (simp add: ex_env_down_def)
  have h4: "serverPool_Get ex_env_down ex_pool ex_world = (Inl ErrNoActiveServer, ex_pool_down, ex_world_down)"
    by code_simp
  have len: "(0::nat) < length (servers ex_pool)" "(1::nat) < length (servers ex_pool)"
    by (simp_all add: ex_pool_def)
  from C2_all_probes_fail_exhaustion [OF h1 h2 h3 h4] h4 len show ?thesis by blast
qed

text \<open>
  C6. Round robin over servers that all answer. On the pool that \<^verbatim>\<open>NewServerPool\<close>
  builds with \<open>roundrobin\<close> set (\<open>lastUsed\<close> is \<open>-1\<close>), when every TCP dial succeeds,
  the \<open>i\<close>-th of \<open>m\<close> consecutive calls (from \<open>i = 0\<close>) returns the address of index
  \<open>i mod N\<close>, which is \<open>lastUsed\<close> after the call, and each call evaluates one candidate
  only, that index: the indices are visited in the order \<open>0, 1, ..., N - 1, 0, ...\<close>,
  each call starting one past the index returned before.
\<close>

theorem C6_round_robin_visits_servers_in_cyclic_order:
  assumes new: "NewServerPool e srvs checkRetry serverCheck True w = (Inr c, w1)"
    and up: "\<forall>m a d. tcp_dial e m a d"
  shows "lastUsed c = - 1 \<and>
         fst (Get_times e m c w1) =
           map (\<lambda>i. (Inr (srvs ! (i mod length srvs)), int (i mod length srvs))) [0..<m] \<and>
         new_evals w1 (snd (snd (Get_times e m c w1))) =
           map (\<lambda>i. Probed (i mod length srvs) (clock e (nowCalls w1 + i)) True) [0..<m]"
proof -
  from new have ne: "srvs \<noteq> []"
    by (auto simp add: NewServerPool_empty)
  from new NewServerPool_eq [OF ne, of e checkRetry serverCheck True w]
  have c: "c = \<lparr>servers = fresh_servers e (duration_ms serverCheck) (nowCalls w) srvs,
           lastUsed = - 1, strategy = RR, checkRetryTimeout = duration_ms checkRetry\<rparr>"
    by simp
  have sv: "servers c = fresh_servers e (duration_ms serverCheck) (nowCalls w) srvs"
    and lu: "lastUsed c = - 1" and rr: "strategy c = RR"
    by (simp_all add: c)
  have al: "\<forall>s\<in>set (servers c). alive s"
    using alive_fresh_servers sv by auto
  have cne: "servers c \<noteq> []" using ne sv by (metis length_fresh_servers length_0_conv)
  have len: "length (servers c) = length srvs" and adr: "map address (servers c) = srvs"
    by (simp_all add: sv)
  have lo: "- 1 \<le> lastUsed c" and hi: "lastUsed c < int (length (servers c))"
    by (simp_all add: lu)
  have m: "nat (int i mod int (length srvs)) = i mod length srvs" for i
    by (metis nat_int zmod_int)
  from Get_times_rr [OF cne rr lo hi al up, of m w1]
  show ?thesis
    by (simp add: lu len adr m new_evals_def zmod_int)
qed

theorem C6_witness:
  "NewServerPool ex_env_up [''a'', ''b''] 10000 200 True ex_world0 = (Inr ex_pool, ex_world) \<and>
   lastUsed ex_pool = - 1 \<and>
   fst (Get_times ex_env_up 3 ex_pool ex_world) = [(Inr ''a'', 0), (Inr ''b'', 1), (Inr ''a'', 0)] \<and>
   new_evals ex_world (snd (snd (Get_times ex_env_up 3 ex_pool ex_world))) =
     [Probed 0 2 True, Probed 1 3 True, Probed 0 4 True]"
proof -
  have h1: "NewServerPool ex_env_up [''a'', ''b''] 10000 200 True ex_world0 = (Inr ex_pool, ex_world)"
    by code_simp
  have h2: "\<forall>m a d. tcp_dial ex_env_up m a d" by (simp add: ex_env_up_def)
  have u: "[0..<3] = [0, 1, 2]" by (simp add: upt_rec)
  have md: "(2::nat) mod Suc (Suc 0) = 0" by (simp add: numeral_2_eq_2)
  from C6_round_robin_visits_servers_in_cyclic_order [OF h1 h2, of 3] h1 show ?thesis
    by (simp add: u md ex_env_up_def ex_world_def)
qed

text \<open>
  C7. Within a call, take any evaluation \<open>ev\<close> of the record, the entry \<open>s\<close> of its
  candidate as the evaluations before it left it, and the reading \<open>clock e n\<close> that the
  evaluation takes first when the entry is dead. If the entry is marked dead and that
  reading is less than \<open>checkRetryTimeout\<close> after \<open>lastCheck\<close>, the candidate is skipped and
  not probed. If a dead entry is probed, then at least \<open>checkRetryTimeout\<close> has passed since
  \<open>lastCheck\<close> at that reading, and also at the time recorded for the probe (the next
  reading) when the clock does not go back. TCP dials are made for probes only: their
  number is the number of probes recorded.
\<close>

theorem C7_dead_server_in_backoff_is_skipped:
  assumes get: "serverPool_Get e c w = (r, c', w')"
    and split: "new_evals w w' = pre @ ev # post"
    and s: "s = replay pre (servers c) ! ev_offset ev"
    and n: "n = clock_after (servers c) (nowCalls w) pre"
  shows "(\<not> alive s \<and> time_Sub (clock e n) (lastCheck s) < checkRetryTimeout c
            \<longrightarrow> ev = Skipped (ev_offset ev)) \<and>
         (is_probe ev \<and> \<not> alive s
            \<longrightarrow> checkRetryTimeout c \<le> time_Sub (clock e n) (lastCheck s) \<and>
                (\<exists>ok. ev = Probed (ev_offset ev) (clock e (Suc n)) ok) \<and>
                (clock e n \<le> clock e (Suc n)
                   \<longrightarrow> checkRetryTimeout c \<le> time_Sub (clock e (Suc n)) (lastCheck s))) \<and>
         tcpDials w' = tcpDials w + length (filter is_probe (new_evals w w'))"
proof -
  note v = Get_valid [OF get]
  from v split have st: "step_ok e (checkRetryTimeout c) (replay pre (servers c)) n
      (dials_after (tcpDials w) pre) ev"
    by (simp add: valid_append n)
  have a: "ev = Skipped (ev_offset ev)"
    if "\<not> alive s" "time_Sub (clock e n) (lastCheck s) < checkRetryTimeout c"
  proof (cases ev)
    case (Skipped k)
    then show ?thesis by simp
  next
    case (Probed k t ok)
    with st that show ?thesis unfolding s by simp
  qed
  have b: "checkRetryTimeout c \<le> time_Sub (clock e n) (lastCheck s) \<and>
                (\<exists>ok. ev = Probed (ev_offset ev) (clock e (Suc n)) ok) \<and>
                (clock e n \<le> clock e (Suc n)
                   \<longrightarrow> checkRetryTimeout c \<le> time_Sub (clock e (Suc n)) (lastCheck s))"
    if "is_probe ev" "\<not> alive s"
  proof (cases ev)
    case (Skipped k)
    with that show ?thesis by simp
  next
    case (Probed k t ok)
    with st that(2) have le: "checkRetryTimeout c \<le> time_Sub (clock e n) (lastCheck s)"
      and t: "t = clock e (Suc n)"
      unfolding s by simp_all
    from le time_Sub_mono [of "clock e n" "clock e (Suc n)" "lastCheck s"]
    have "clock e n \<le> clock e (Suc n)
                   \<longrightarrow> checkRetryTimeout c \<le> time_Sub (clock e (Suc n)) (lastCheck s)"
      by auto
    with le t Probed show ?thesis by simp
  qed
  from v have d: "tcpDials w' = tcpDials w + length (filter is_probe (new_evals w w'))"
    by (simp add: dials_after_count)
  from a b d show ?thesis by blast
qed

theorem C7_witness:
  "serverPool_Get ex_env_down ex_pool ex_world = (Inl ErrNoActiveServer, ex_pool_down, ex_world_down) \<and>
   new_evals ex_world ex_world_down =
     [Probed 0 2 False, Probed 1 3 False] @ Skipped 0 # [Skipped 1, Skipped 0, Skipped 1] \<and>
   \<not> alive (replay [Probed 0 2 False, Probed 1 3 False] (servers ex_pool) ! 0) \<and>
   time_Sub (clock ex_env_down 4)
     (lastCheck (replay [Probed 0 2 False, Probed 1 3 False] (servers ex_pool) ! 0))
     < checkRetryTimeout ex_pool \<and>
   tcpDials ex_world_down = tcpDials ex_world + 2 \<and>
   serverPool_Get ex_env_down ex_pool_eager ex_world = (Inl ErrNoActiveServer, ex_pool_eager', ex_world_eager') \<and>
   new_evals ex_world ex_world_eager' =
     [Probed 0 2 False, Probed 1 3 False] @ Probed 0 5 False
       # [Probed 1 7 False, Probed 0 9 False, Probed 1 11 False] \<and>
   checkRetryTimeout ex_pool_eager
     \<le> time_Sub (clock ex_env_down 4)
         (lastCheck (replay [Probed 0 2 False, Probed 1 3 False] (servers ex_pool_eager) ! 0)) \<and>
   checkRetryTimeout ex_pool_eager
     \<le> time_Sub (clock ex_env_down (Suc 4))
         (lastCheck (replay [Probed 0 2 False, Probed 1 3 False] (servers ex_pool_eager) ! 0))"
proof -
  have g1: "serverPool_Get ex_env_down ex_pool ex_world = (Inl ErrNoActiveServer, ex_pool_down, ex_world_down)"
    by code_simp
  have s1: "new_evals ex_world ex_world_down =
      [Probed 0 2 False, Probed 1 3 False] @ Skipped 0 # [Skipped 1, Skipped 0, Skipped 1]"
    by (simp add: new_evals_def ex_world_def ex_world_down_def)
  have n1: "(4::nat) = clock_after (servers ex_pool) (nowCalls ex_world) [Probed 0 2 False, Probed 1 3 False]"
    by (simp add: ex_pool_def ex_world_def)
  have d1: "\<not> alive (replay [Probed 0 2 False, Probed 1 3 False] (servers ex_pool) ! 0)"
    "time_Sub (clock ex_env_down 4)
       (lastCheck (replay [Probed 0 2 False, Probed 1 3 False] (servers ex_pool) ! 0))
       < checkRetryTimeout ex_pool"
    by (simp_all add: ex_pool_def ex_env_down_def time_Sub_def minDuration_def maxDuration_def)
  have g2: "serverPool_Get ex_env_down ex_pool_eager ex_world = (Inl ErrNoActiveServer, ex_pool_eager', ex_world_eager')"
    by code_simp
  have s2: "new_evals ex_world ex_world_eager' =
      [Probed 0 2 False, Probed 1 3 False] @ Probed 0 5 False
        # [Probed 1 7 False, Probed 0 9 False, Probed 1 11 False]"
    by (simp add: new_evals_def ex_world_def ex_world_eager'_def)
  have n2: "(4::nat) = clock_after (servers ex_pool_eager) (nowCalls ex_world) [Probed 0 2 False, Probed 1 3 False]"
    by (simp add: ex_pool_eager_def ex_world_def)
  have e2: "replay [Probed 0 2 False, Probed 1 3 False] (servers ex_pool_eager) ! 0 =
      replay [Probed 0 2 False, Probed 1 3 False] (servers ex_pool_eager) ! ev_offset (Probed 0 5 False)"
    by simp
  have d2: "is_probe (Probed 0 5 False)"
    "\<not> alive (replay [Probed 0 2 False, Probed 1 3 False] (servers ex_pool_eager) ! 0)"
    "clock ex_env_down 4 \<le> clock ex_env_down (Suc 4)"
    by (simp_all add: ex_pool_eager_def ex_env_down_def)
  have f: "length (filter is_probe (new_evals ex_world ex_world_down)) = 2"
    by (simp add: s1)
  from C7_dead_server_in_backoff_is_skipped [OF g1 s1 refl n1] f
  have a: "tcpDials ex_world_down = tcpDials ex_world + 2" by simp
  from C7_dead_server_in_backoff_is_skipped [OF g2 s2 e2 n2] d2
  have b: "checkRetryTimeout ex_pool_eager
     \<le> time_Sub (clock ex_env_down 4)
         (lastCheck (replay [Probed 0 2 False, Probed 1 3 False] (servers ex_pool_eager) ! 0))"
    "checkRetryTimeout ex_pool_eager
     \<le> time_Sub (clock ex_env_down (Suc 4))
         (lastCheck (replay [Probed 0 2 False, Probed 1 3 False] (servers ex_pool_eager) ! 0))"
    by blast+
  from g1 s1 d1 a g2 s2 b show ?thesis by blast
qed

text \<open>
  C9, as amended. A call writes \<open>lastCheck\<close> and \<open>alive\<close> of every entry it probes: the entries after
  the call are the entries before it with the time and the outcome of each recorded
  probe written into the entry probed, so that an entry probed in the call holds the
  time and the outcome of its last probe and an entry not probed (skipped or not
  reached) is unchanged. Each recorded probe is real: its time is a reading of the clock
  taken during the call and its outcome is the answer of a TCP dial of the call to the
  address of the entry.
\<close>

theorem C9_probed_entries_are_updated:
  assumes "serverPool_Get e c w = (r, c', w')"
  shows "length (servers c') = length (servers c) \<and>
         servers c' = replay (new_evals w w') (servers c) \<and>
         (\<forall>k<length (servers c).
            servers c' ! k =
              (case last_probe k (new_evals w w') of
                 None \<Rightarrow> servers c ! k
               | Some (t, ok) \<Rightarrow> (servers c ! k)\<lparr>lastCheck := t, alive := ok\<rparr>)) \<and>
         (\<forall>k t ok. Probed k t ok \<in> set (new_evals w w') \<longrightarrow>
            k < length (servers c) \<and>
            (\<exists>n m. nowCalls w \<le> n \<and> n < nowCalls w' \<and> t = clock e n \<and>
               tcpDials w \<le> m \<and> m < tcpDials w' \<and>
               ok = tcp_dial e m (address (servers c ! k)) (checkTimeout (servers c ! k))))"
proof -
  note v = Get_valid [OF assms]
  have "k < length (servers c) \<and>
            (\<exists>n m. nowCalls w \<le> n \<and> n < nowCalls w' \<and> t = clock e n \<and>
               tcpDials w \<le> m \<and> m < tcpDials w' \<and>
               ok = tcp_dial e m (address (servers c ! k)) (checkTimeout (servers c ! k)))"
    if "Probed k t ok \<in> set (new_evals w w')" for k t ok
    using valid_probe_real [OF conjunct1 [OF v] that] valid_offset_range [OF conjunct1 [OF v] that] v
    by simp
  with v show ?thesis by (simp add: replay_nth)
qed

theorem C9_witness:
  "serverPool_Get ex_env ex_pool ex_world = (Inr ''b'', ex_pool', ex_world') \<and>
   length (servers ex_pool') = length (servers ex_pool) \<and>
   servers ex_pool' = replay (new_evals ex_world ex_world') (servers ex_pool) \<and>
   servers ex_pool' ! 0 = (servers ex_pool ! 0)\<lparr>lastCheck := 2, alive := False\<rparr> \<and>
   servers ex_pool' ! 1 = (servers ex_pool ! 1)\<lparr>lastCheck := 3, alive := True\<rparr> \<and>
   Probed 1 3 True \<in> set (new_evals ex_world ex_world') \<and>
   (\<exists>n m. nowCalls ex_world \<le> n \<and> n < nowCalls ex_world' \<and> 3 = clock ex_env n \<and>
      tcpDials ex_world \<le> m \<and> m < tcpDials ex_world' \<and>
      True = tcp_dial ex_env m (address (servers ex_pool ! 1)) (checkTimeout (servers ex_pool ! 1)))"
proof -
  have h: "serverPool_Get ex_env ex_pool ex_world = (Inr ''b'', ex_pool', ex_world')"
    by code_simp
  have ev: "new_evals ex_world ex_world' = [Probed 0 2 False, Probed 1 3 True]"
    by (simp add: new_evals_def ex_world_def ex_world'_def)
  have lp: "last_probe 0 (new_evals ex_world ex_world') = Some (2, False)"
    "last_probe 1 (new_evals ex_world ex_world') = Some (3, True)"
    by (simp_all add: ev)
  have len: "(0::nat) < length (servers ex_pool)" "(1::nat) < length (servers ex_pool)"
    by (simp_all add: ex_pool_def)
  have m: "Probed 1 3 True \<in> set (new_evals ex_world ex_world')" by (simp add: ev)
  note t = C9_probed_entries_are_updated [OF h]
  note t1 = t [THEN conjunct1]
  note t2 = t [THEN conjunct2, THEN conjunct1]
  note t3 = t [THEN conjunct2, THEN conjunct2, THEN conjunct1, rule_format]
  note t4 = t [THEN conjunct2, THEN conjunct2, THEN conjunct2, rule_format]
  from t3 [OF len(1)] lp(1) have a: "servers ex_pool' ! 0 = (servers ex_pool ! 0)\<lparr>lastCheck := 2, alive := False\<rparr>"
    by simp
  from t3 [OF len(2)] lp(2) have b: "servers ex_pool' ! 1 = (servers ex_pool ! 1)\<lparr>lastCheck := 3, alive := True\<rparr>"
    by simp
  from t4 [OF m] have c: "\<exists>n m. nowCalls ex_world \<le> n \<and> n < nowCalls ex_world' \<and> 3 = clock ex_env n \<and>
      tcpDials ex_world \<le> m \<and> m < tcpDials ex_world' \<and>
      True = tcp_dial ex_env m (address (servers ex_pool ! 1)) (checkTimeout (servers ex_pool ! 1))"
    by (rule conjunct2)
  from h t1 t2 a b m c show ?thesis by (intro conjI)
qed

text \<open>
  The claim C9 as it was stated fails: an entry that the scan examines and skips is not
  written. On the pool whose two servers failed their probes in the first call, a second
  call made within the retry timeout of ten seconds examines each entry three times,
  reads the clock for each, skips all six candidates and dials nothing: the entries
  after the call are the entries before it, \<open>lastCheck\<close> still the time of the probe of
  the first call.
\<close>

theorem C9_counterexample:
  "NewServerPool ex_env_down [''a'', ''b''] 10000 200 True ex_world0 = (Inr ex_pool, ex_world) \<and>
   serverPool_Get ex_env_down ex_pool ex_world = (Inl ErrNoActiveServer, ex_pool_down, ex_world_down) \<and>
   serverPool_Get ex_env_down ex_pool_down ex_world_down =
     (Inl ErrNoActiveServer, ex_pool_down, ex_world_skips) \<and>
   new_evals ex_world_down ex_world_skips =
     [Skipped 0, Skipped 1, Skipped 0, Skipped 1, Skipped 0, Skipped 1] \<and>
   Skipped 0 \<in> set (new_evals ex_world_down ex_world_skips) \<and>
   Skipped 1 \<in> set (new_evals ex_world_down ex_world_skips) \<and>
   lastCheck (servers ex_pool_down ! 0) = 2 \<and> lastCheck (servers ex_pool_down ! 1) = 3 \<and>
   nowCalls ex_world_down = 8 \<and> nowCalls ex_world_skips = 14 \<and>
   tcpDials ex_world_skips = tcpDials ex_world_down"
proof -
  have h1: "NewServerPool ex_env_down [''a'', ''b''] 10000 200 True ex_world0 = (Inr ex_pool, ex_world)"
    by code_simp
  have h2: "serverPool_Get ex_env_down ex_pool ex_world = (Inl ErrNoActiveServer, ex_pool_down, ex_world_down)"
    by code_simp
  have h3: "serverPool_Get ex_env_down ex_pool_down ex_world_down =
      (Inl ErrNoActiveServer, ex_pool_down, ex_world_skips)"
    by code_simp
  have s: "new_evals ex_world_down ex_world_skips =
      [Skipped 0, Skipped 1, Skipped 0, Skipped 1, Skipped 0, Skipped 1]"
    by (simp add: new_evals_def ex_world_down_def ex_world_skips_def)
  have e: "lastCheck (servers ex_pool_down ! 0) = 2" "lastCheck (servers ex_pool_down ! 1) = 3"
    by (simp_all add: ex_pool_down_def)
  have w: "nowCalls ex_world_down = 8" "nowCalls ex_world_skips = 14"
    "tcpDials ex_world_skips = tcpDials ex_world_down"
    by (simp_all add: ex_world_down_def ex_world_skips_def)
  from h1 h2 h3 s e w show ?thesis by simp
qed

text \<open>
  C10, as amended. \<^verbatim>\<open>NewServerPool\<close> dials nothing and leaves every entry marked alive,
  its \<open>lastCheck\<close> the reading of the clock taken for that entry during construction.
  In the first call of \<^verbatim>\<open>Get\<close> on that pool, every candidate reached by the scan in its
  first pass over the list is probed, and a candidate is skipped only after a probe of it has failed earlier
  in this same call (in the second and third pass such candidates are skipped while
  the retry timeout has not passed).
\<close>

theorem C10_fresh_pool_probes_before_skipping:
  assumes new: "NewServerPool e srvs checkRetry serverCheck roundrobin w = (Inr c, w1)"
    and get: "serverPool_Get e c w1 = (r, c', w')"
  shows "map address (servers c) = srvs \<and>
         (\<forall>s\<in>set (servers c). alive s) \<and>
         (\<forall>i<length srvs. lastCheck (servers c ! i) = clock e (nowCalls w + i)) \<and>
         tcpDials w1 = tcpDials w \<and> evals w1 = evals w \<and>
         (\<forall>ev\<in>set (take (length srvs) (new_evals w1 w')). is_probe ev) \<and>
         (\<forall>pre k post. new_evals w1 w' = pre @ Skipped k # post
            \<longrightarrow> (\<exists>t. Probed k t False \<in> set pre))"
proof -
  from new have ne: "srvs \<noteq> []"
    by (auto simp add: NewServerPool_empty)
  from new NewServerPool_eq [OF ne, of e checkRetry serverCheck roundrobin w]
  have c: "c = \<lparr>servers = fresh_servers e (duration_ms serverCheck) (nowCalls w) srvs,
           lastUsed = - 1, strategy = (if roundrobin then RR else FIRST),
           checkRetryTimeout = duration_ms checkRetry\<rparr>"
    and w1: "w1 = w\<lparr>nowCalls := nowCalls w + length srvs\<rparr>"
    by simp_all
  have sv: "servers c = fresh_servers e (duration_ms serverCheck) (nowCalls w) srvs"
    and lu: "lastUsed c = - 1"
    by (simp_all add: c)
  have al: "\<forall>s\<in>set (servers c). alive s"
    using alive_fresh_servers sv by auto
  have cne: "servers c \<noteq> []" using ne sv by (metis length_fresh_servers length_0_conv)
  have inv: "strategy c = RR \<longrightarrow> - 1 \<le> lastUsed c" using lu by simp
  have len: "length (servers c) = length srvs" by (simp add: sv)
  note v = Get_valid [OF get]
  have offs: "map ev_offset (new_evals w1 w') =
      map nat (take (length (new_evals w1 w')) (offsets c))"
    using get
  proof (cases rule: Get_cases)
    case untouched
    then show ?thesis by simp
  next
    case (exhausted evs)
    then show ?thesis by (metis length_map new_evals_world_after order_refl take_all)
  next
    case (found pre k t)
    then show ?thesis by simp
  qed
  have first: "\<forall>ev\<in>set (take (length srvs) (new_evals w1 w')). is_probe ev"
    using first_pass_probes [OF cne inv al conjunct1 [OF v] offs] len by auto
  have skip: "\<exists>t. Probed k t False \<in> set pre" if "new_evals w1 w' = pre @ Skipped k # post" for pre k post
    using valid_skip_after_fail [of e "checkRetryTimeout c" "servers c" "nowCalls w1" "tcpDials w1" pre k post]
      v al that by simp
  have lc: "\<forall>i<length srvs. lastCheck (servers c ! i) = clock e (nowCalls w + i)"
    by (simp add: sv fresh_servers_nth)
  from al first skip lc show ?thesis
    by (simp add: sv w1)
qed

theorem C10_witness:
  "NewServerPool ex_env_down [''a'', ''b''] 10000 200 True ex_world0 = (Inr ex_pool, ex_world) \<and>
   serverPool_Get ex_env_down ex_pool ex_world = (Inl ErrNoActiveServer, ex_pool_down, ex_world_down) \<and>
   map address (servers ex_pool) = [''a'', ''b''] \<and>
   lastCheck (servers ex_pool ! 1) = clock ex_env_down (nowCalls ex_world0 + 1) \<and>
   tcpDials ex_world = tcpDials ex_world0 \<and>
   is_probe (Probed 1 3 False) \<and>
   (\<exists>t. Probed 0 t False \<in> set [Probed 0 2 False, Probed 1 3 False])"
proof -
  have h1: "NewServerPool ex_env_down [''a'', ''b''] 10000 200 True ex_world0 = (Inr ex_pool, ex_world)"
    by code_simp
  have h2: "serverPool_Get ex_env_down ex_pool ex_world = (Inl ErrNoActiveServer, ex_pool_down, ex_world_down)"
    by code_simp
  have s: "new_evals ex_world ex_world_down =
      [Probed 0 2 False, Probed 1 3 False] @ Skipped 0 # [Skipped 1, Skipped 0, Skipped 1]"
    by (simp add: new_evals_def ex_world_def ex_world_down_def)
  have p: "Probed 1 3 False \<in> set (take (length [''a'', ''b'']) (new_evals ex_world ex_world_down))"
    by (simp add: s)
  have i: "(1::nat) < length [''a'', ''b'']" by simp
  note t = C10_fresh_pool_probes_before_skipping [OF h1 h2]
  note t1 = t [THEN conjunct1]
  note t3 = t [THEN conjunct2, THEN conjunct2, THEN conjunct1, rule_format]
  note t4 = t [THEN conjunct2, THEN conjunct2, THEN conjunct2, THEN conjunct1]
  note t6 = t [THEN conjunct2, THEN conjunct2, THEN conjunct2, THEN conjunct2, THEN conjunct2,
    THEN conjunct1, rule_format]
  note t7 = t [THEN conjunct2, THEN conjunct2, THEN conjunct2, THEN conjunct2, THEN conjunct2,
    THEN conjunct2, rule_format]
  from h1 h2 t1 t3 [OF i] t4 t6 [OF p] t7 [OF s] show ?thesis by (intro conjI)
qed

text \<open>
  The claim C10 as it was stated fails: on a fresh pool whose servers do not answer,
  with the retry timeout of ten seconds, the first call probes both servers in the
  first pass and skips both in the second and in the third pass, so that a candidate the
  scan reaches is skipped by the backoff rule and four of its six evaluations dial
  nothing.
\<close>

theorem C10_counterexample:
  "NewServerPool ex_env_down [''a'', ''b''] 10000 200 True ex_world0 = (Inr ex_pool, ex_world) \<and>
   serverPool_Get ex_env_down ex_pool ex_world = (Inl ErrNoActiveServer, ex_pool_down, ex_world_down) \<and>
   new_evals ex_world ex_world_down =
     [Probed 0 2 False, Probed 1 3 False, Skipped 0, Skipped 1, Skipped 0, Skipped 1] \<and>
   Skipped 0 \<in> set (new_evals ex_world ex_world_down) \<and>
   tcpDials ex_world_down - tcpDials ex_world = 2"
proof -
  have h1: "NewServerPool ex_env_down [''a'', ''b''] 10000 200 True ex_world0 = (Inr ex_pool, ex_world)"
    by code_simp
  have h2: "serverPool_Get ex_env_down ex_pool ex_world = (Inl ErrNoActiveServer, ex_pool_down, ex_world_down)"
    by code_simp
  have s: "new_evals ex_world ex_world_down =
      [Probed 0 2 False, Probed 1 3 False, Skipped 0, Skipped 1, Skipped 0, Skipped 1]"
    by (simp add: new_evals_def ex_world_def ex_world_down_def)
  have d: "tcpDials ex_world_down - tcpDials ex_world = 2"
    by (simp add: ex_world_def ex_world_down_def)
  from h1 h2 s d show ?thesis by simp
qed

section \<open>Lemmas about the connection pool\<close>

lemma client_Close_no_room:
  assumes "conns c = None \<or> (\<exists>ch. conns c = Some ch \<and> chan_cap ch \<le> length (chan_buf ch))"
  shows "client_Close x c w = (c, w\<lparr>torn := torn w @ [transport x]\<rparr>)"
proof (induction x)
  case (LdapConn i)
  show ?case by simp
next
  case (PoolConn inner ca lc)
  from assms PoolConn show ?case
    by (auto split: option.splits)
qed

lemma put_no_room:
  assumes "conns c = None \<or> (\<exists>ch. conns c = Some ch \<and> chan_cap ch \<le> length (chan_buf ch))"
  shows "put (Some x) c w = (c, w\<lparr>torn := torn w @ [transport x]\<rparr>)"
  using assms client_Close_no_room [OF assms, of x w] by (auto split: option.splits)

lemma drain_closed:
  assumes "conns c = None"
  shows "drain xs c w = (c, w\<lparr>torn := torn w @ map transport xs\<rparr>)"
  using assms
proof (induction xs arbitrary: w)
  case Nil
  show ?case by simp
next
  case (Cons x xs)
  from Cons.prems have "client_Close x c w = (c, w\<lparr>torn := torn w @ [transport x]\<rparr>)"
    by (intro client_Close_no_room) simp
  with Cons show ?case by simp
qed




lemma channelPool_Close_eq:
  "channelPool_Close c w = (c\<lparr>conns := None\<rparr>, w\<lparr>torn := torn w @ map transport (idle c)\<rparr>)"
  by (cases "conns c") (simp_all add: channelPool_Close_def idle_def drain_closed)

lemma Get_frame:
  assumes "serverPool_Get e sp w = (r, sp', w')"
  shows "ldapDials w' = ldapDials w \<and> searches w' = searches w \<and> opened w' = opened w \<and>
         torn w' = torn w \<and> logs w' = logs w"
  using assms
proof (cases rule: Get_cases)
  case untouched
  then show ?thesis by simp
next
  case (exhausted evs)
  then show ?thesis by (simp add: world_after_def)
next
  case (found pre k t)
  then show ?thesis by (simp add: world_after_def)
qed

lemma NewConn_cases:
  assumes "NewConn e tls c w = (r, c1, w1)"
  shows "conns c1 = conns c \<and> closeAt c1 = closeAt c \<and> useTLS c1 = useTLS c \<and> torn w1 = torn w \<and>
         ((\<exists>err. r = Inl err \<and> opened w1 = opened w) \<or>
          (r = Inr (wrapConn (LdapConn (ldapDials w)) (closeAt c)) \<and>
           opened w1 = opened w @ [ldapDials w] \<and> ldapDials w1 = Suc (ldapDials w)))"
proof (cases "serverPool_Get e (serverPool c) w" rule: prod_cases3)
  case (fields r0 sp1 w0)
  note fr = Get_frame [OF fields]
  show ?thesis
  proof (cases r0)
    case (Inl err)
    with fields assms fr show ?thesis by (auto simp add: NewConn_def)
  next
    case (Inr srv)
    with fields assms fr show ?thesis
      by (cases "ldap_dial e (ldapDials w0) tls srv") (auto simp add: NewConn_def Let_def)
  qed
qed

lemma transport_wrapConn [simp]: "transport (wrapConn x ca) = transport x"
  by (simp add: wrapConn_def)

lemma fill_result:
  assumes "fill e ic tls i c w = (r, sp', w')"
    and "conns c = Some ch"
    and "chan_buf ch = map (\<lambda>j. wrapConn (LdapConn j) (closeAt c)) ids"
    and "int (length ids) = i"
    and "ic \<le> int (chan_cap ch)"
    and "opened w = o0 @ ids"
  shows "(\<exists>err ids'. r = Inl (ErrFill err) \<and> opened w' = o0 @ ids' \<and> torn w' = torn w @ ids' \<and>
            int (length ids') < ic) \<or>
         (\<exists>c' ids'. r = Inr c' \<and> opened w' = o0 @ ids' \<and> torn w' = torn w \<and>
            idle c' = map (\<lambda>j. wrapConn (LdapConn j) (closeAt c)) ids' \<and>
            int (length ids') = max i ic \<and> capacity c' = chan_cap ch \<and> sp' = serverPool c')"
  using assms
proof (induction n \<equiv> "nat (ic - i)" arbitrary: i c w ch ids)
  case 0
  then have "\<not> i < ic" by simp
  with "0.prems"(1) have "r = Inr c" "sp' = serverPool c" "w' = w"
    by (simp_all add: fill.simps [of e ic tls i])
  with "0.prems" \<open>\<not> i < ic\<close> show ?case
    by (intro disjI2 exI [of _ c] exI [of _ ids]) (simp add: idle_def capacity_def max_def)
next
  case (Suc n)
  then have lt: "i < ic" by simp
  obtain r1 c1 w1 where nc: "NewConn e tls c w = (r1, c1, w1)"
    by (cases "NewConn e tls c w" rule: prod_cases3)
  note N = NewConn_cases [OF nc]
  from N Suc.prems(2) have c1: "conns c1 = Some ch" "closeAt c1 = closeAt c" "torn w1 = torn w"
    by simp_all
  from N consider (fail) err where "r1 = Inl err" "opened w1 = opened w"
    | (ok) "r1 = Inr (wrapConn (LdapConn (ldapDials w)) (closeAt c))"
        "opened w1 = opened w @ [ldapDials w]"
    by blast
  then show ?case
  proof cases
    case fail
    have idl: "map transport (idle c1) = ids"
      by (simp add: idle_def c1 Suc.prems(3) comp_def)
    from fail nc lt Suc.prems(1)
    have "r = Inl (ErrFill err)" "w' = w1\<lparr>torn := torn w1 @ map transport (idle c1)\<rparr>"
      by (simp_all add: fill.simps [of e ic tls i] channelPool_Close_eq)
    with fail(2) c1 idl Suc.prems(4,6) lt show ?thesis
      by (intro disjI1 exI [of _ err] exI [of _ ids]) simp
  next
    case ok
    define j where "j = ldapDials w"
    define ch2 where "ch2 = ch\<lparr>chan_buf := chan_buf ch @ [wrapConn (LdapConn j) (closeAt c)]\<rparr>"
    define c2 where "c2 = c1\<lparr>conns := Some ch2\<rparr>"
    from Suc.prems(4,5) lt have room: "length (chan_buf ch) < chan_cap ch"
      by (simp add: Suc.prems(3))
    with ok nc lt Suc.prems(1) c1 have f2: "fill e ic tls (i + 1) c2 w1 = (r, sp', w')"
      by (simp add: fill.simps [of e ic tls i] c2_def ch2_def j_def)
    have p2: "conns c2 = Some ch2" by (simp add: c2_def)
    have p3: "chan_buf ch2 = map (\<lambda>j. wrapConn (LdapConn j) (closeAt c2)) (ids @ [j])"
      by (simp add: ch2_def c2_def c1 Suc.prems(3))
    have p4: "int (length (ids @ [j])) = i + 1" using Suc.prems(4) by simp
    have p5: "ic \<le> int (chan_cap ch2)" using Suc.prems(5) by (simp add: ch2_def)
    have p6: "opened w1 = o0 @ (ids @ [j])" using ok(2) Suc.prems(6) by (simp add: j_def)
    have n: "n = nat (ic - (i + 1))" using Suc.hyps(2) by simp
    from Suc.hyps(1) [OF n f2 p2 p3 p4 p5 p6] lt show ?thesis
      by (simp add: c2_def c1 ch2_def max_def)
  qed
qed






lemma closed_apply_op:
  assumes "conns c = None"
  shows "fst (apply_op e x c w) = c"
proof (cases x)
  case Acquire
  with assms show ?thesis by (simp add: channelPool_Get_def)
next
  case (Release y)
  show ?thesis
  proof (cases y)
    case None
    with Release show ?thesis by simp
  next
    case (Some z)
    with Release assms put_no_room [of c z w] show ?thesis by simp
  qed
next
  case (CloseWrapper p)
  with assms client_Close_no_room [of c p w] show ?thesis by simp
next
  case CloseAll
  with assms show ?thesis by (simp add: channelPool_Close_def)
qed

lemma closed_apply_ops:
  assumes "conns c = None"
  shows "fst (apply_ops e xs c w) = c"
  using assms
proof (induction xs arbitrary: w)
  case Nil
  show ?case by simp
next
  case (Cons x xs)
  from closed_apply_op [OF Cons.prems, of e x w] obtain w1 where "apply_op e x c w = (c, w1)"
    by (cases "apply_op e x c w") simp
  with Cons show ?case by simp
qed

lemma NewConn_conns:
  "NewConn e tls (c\<lparr>conns := x\<rparr>) w =
     (case NewConn e tls c w of (r, c1, w1) \<Rightarrow> (r, c1\<lparr>conns := x\<rparr>, w1))"
  by (cases "serverPool_Get e (serverPool c) w" rule: prod_cases3)
     (auto simp add: NewConn_def Let_def split: sum.splits)

lemma fill_eager:
  assumes "length buf + nat (ic - i) \<le> cap"
  shows "fill e ic tls i (c\<lparr>conns := Some \<lparr>chan_buf = buf, chan_cap = cap\<rparr>\<rparr>) w =
     (case eager_dials e tls (nat (ic - i)) c w of
        (None, cs, c1, w1) \<Rightarrow>
          (Inr (c1\<lparr>conns := Some \<lparr>chan_buf = buf @ cs, chan_cap = cap\<rparr>\<rparr>), serverPool c1, w1)
      | (Some err, cs, c1, w1) \<Rightarrow>
          (Inl (ErrFill err), serverPool c1, w1\<lparr>torn := torn w1 @ map transport (buf @ cs)\<rparr>))"
  using assms
proof (induction n \<equiv> "nat (ic - i)" arbitrary: i c w buf)
  case 0
  then have "\<not> i < ic" by simp
  with 0 show ?case
    by (simp add: fill.simps [of e ic tls i])
next
  case (Suc n)
  then have lt: "i < ic" by simp
  from Suc.hyps(2) have n: "n = nat (ic - (i + 1))" by simp
  from Suc.hyps(2) have sn: "nat (ic - i) = Suc n" by simp
  from Suc.prems sn have room: "length buf < cap" by simp
  obtain r1 c1 w1 where nc: "NewConn e tls c w = (r1, c1, w1)"
    by (cases "NewConn e tls c w" rule: prod_cases3)
  let ?c = "c\<lparr>conns := Some \<lparr>chan_buf = buf, chan_cap = cap\<rparr>\<rparr>"
  have nc': "NewConn e tls ?c w = (r1, c1\<lparr>conns := Some \<lparr>chan_buf = buf, chan_cap = cap\<rparr>\<rparr>, w1)"
    by (simp add: NewConn_conns nc)
  show ?case
  proof (cases r1)
    case (Inl err)
    with nc nc' lt show ?thesis
      by (simp add: fill.simps [of e ic tls i] sn channelPool_Close_eq idle_def)
  next
    case (Inr conn)
    have room': "length (buf @ [conn]) + nat (ic - (i + 1)) \<le> cap"
      using Suc.prems sn n by simp
    note IH = Suc.hyps(1) [OF n room', of c1 w1]
    have "fill e ic tls i ?c w =
        fill e ic tls (i + 1) (c1\<lparr>conns := Some \<lparr>chan_buf = buf @ [conn], chan_cap = cap\<rparr>\<rparr>) w1"
      using Inr nc' lt room by (simp add: fill.simps [of e ic tls i])
    with IH Inr nc show ?thesis
      by (cases "eager_dials e tls n c1 w1" rule: prod_cases4)
         (auto simp add: sn n [symmetric] split: option.splits)
  qed
qed

lemma eager_dials_first_failure:
  assumes "eager_dials e tls k c w = (None, cs, ck, wk)"
    and "NewConn e tls ck wk = (Inl err, c1, w1)"
    and "k < n"
  shows "eager_dials e tls n c w = (Some err, cs, c1, w1)"
  using assms
proof (induction k arbitrary: n c w cs)
  case 0
  then obtain m where "n = Suc m" by (cases n) simp_all
  with 0 show ?case by simp
next
  case (Suc k)
  then obtain m where m: "n = Suc m" "k < m" by (cases n) simp_all
  obtain r0 c0 w0 where nc: "NewConn e tls c w = (r0, c0, w0)"
    by (cases "NewConn e tls c w" rule: prod_cases3)
  show ?case
  proof (cases r0)
    case (Inl err0)
    with nc Suc.prems(1) show ?thesis by simp
  next
    case (Inr conn)
    obtain r2 cs2 c2 w2 where ed: "eager_dials e tls k c0 w0 = (r2, cs2, c2, w2)"
      by (cases "eager_dials e tls k c0 w0" rule: prod_cases4)
    with nc Inr Suc.prems(1) have eq: "r2 = None" "cs = conn # cs2" "c2 = ck" "w2 = wk"
      by simp_all
    from Suc.IH [OF _ Suc.prems(2) m(2), of c0 w0 cs2] ed eq
    have "eager_dials e tls m c0 w0 = (Some err, cs2, c1, w1)" by simp
    with nc Inr m(1) eq show ?thesis by simp
  qed
qed

lemma NewChannelPool_eager:
  assumes "0 \<le> initialCap" "0 < maxCap" "initialCap \<le> maxCap"
  shows "NewChannelPool e initialCap maxCap srvs tls ca w =
     (case eager_dials e tls (nat initialCap) (empty_pool maxCap srvs tls ca) w of
        (None, cs, c1, w1) \<Rightarrow>
          (Inr (c1\<lparr>conns := Some \<lparr>chan_buf = cs, chan_cap = nat maxCap\<rparr>\<rparr>), serverPool c1, w1)
      | (Some err, cs, c1, w1) \<Rightarrow>
          (Inl (ErrFill err), serverPool c1, w1\<lparr>torn := torn w1 @ map transport cs\<rparr>))"
proof -
  have "length ([] :: client list) + nat (initialCap - 0) \<le> nat maxCap"
    using assms by simp
  from fill_eager [OF this, of e tls "empty_pool maxCap srvs tls ca" w] assms show ?thesis
    by (cases "eager_dials e tls (nat initialCap) (empty_pool maxCap srvs tls ca) w" rule: prod_cases4)
       (auto simp add: NewChannelPool_def empty_pool_def split: option.splits)
qed

lemma eager_dials_failure_point:
  assumes "eager_dials e tls n c w = (Some err, cs, c1, w1)"
  shows "\<exists>k<n. \<exists>ck wk. eager_dials e tls k c w = (None, cs, ck, wk) \<and>
           NewConn e tls ck wk = (Inl err, c1, w1)"
  using assms
proof (induction n arbitrary: c w cs)
  case 0
  then show ?case by simp
next
  case (Suc n)
  obtain r0 c0 w0 where nc: "NewConn e tls c w = (r0, c0, w0)"
    by (cases "NewConn e tls c w" rule: prod_cases3)
  show ?case
  proof (cases r0)
    case (Inl err0)
    with nc Suc.prems have "err0 = err" "cs = []" "c0 = c1" "w0 = w1" by simp_all
    with nc Inl show ?thesis
      by (intro exI [of _ 0]) simp
  next
    case (Inr conn)
    obtain r2 cs2 c2 w2 where ed: "eager_dials e tls n c0 w0 = (r2, cs2, c2, w2)"
      by (cases "eager_dials e tls n c0 w0" rule: prod_cases4)
    with nc Inr Suc.prems have eq: "r2 = Some err" "cs = conn # cs2" "c2 = c1" "w2 = w1"
      by simp_all
    from Suc.IH [of c0 w0 cs2] ed eq obtain k ck wk where k: "k < n"
      "eager_dials e tls k c0 w0 = (None, cs2, ck, wk)" "NewConn e tls ck wk = (Inl err, c1, w1)"
      by auto
    with nc Inr eq(2) show ?thesis
      by (intro exI [of _ "Suc k"]) simp
  qed
qed

section \<open>Claims about the connection pool\<close>



text \<open>
  C4. After \<^verbatim>\<open>Close\<close> of the pool the channel field is \<^verbatim>\<open>nil\<close> and the pool holds no idle
  connection; the connections that were idle have all been torn down; every \<^verbatim>\<open>Get\<close>
  returns \<^verbatim>\<open>ErrClosed\<close> at once, changing nothing; a connection released afterwards (by
  \<^verbatim>\<open>put\<close>, or by the \<^verbatim>\<open>Close\<close> of a client) is torn down and not buffered; a second
  \<^verbatim>\<open>Close\<close> of the pool changes nothing; and no sequence of later uses reopens the pool.
\<close>

theorem C4_closed_pool_stays_closed:
  assumes "channelPool_Close c w = (c', w')"
  shows "conns c' = None \<and> Len c' = 0 \<and> idle c' = [] \<and>
         torn w' = torn w @ map transport (idle c) \<and>
         channelPool_Get e c' w' = (Inl ErrClosed, c', w') \<and>
         put (Some x) c' w' = (c', w'\<lparr>torn := torn w' @ [transport x]\<rparr>) \<and>
         client_Close x c' w' = (c', w'\<lparr>torn := torn w' @ [transport x]\<rparr>) \<and>
         channelPool_Close c' w' = (c', w') \<and>
         fst (apply_ops e ops c' w') = c'"
proof -
  from assms have c': "c' = c\<lparr>conns := None\<rparr>" and w': "w' = w\<lparr>torn := torn w @ map transport (idle c)\<rparr>"
    by (simp_all add: channelPool_Close_eq)
  have n: "conns c' = None" by (simp add: c')
  then have "put (Some x) c' w' = (c', w'\<lparr>torn := torn w' @ [transport x]\<rparr>)"
    "client_Close x c' w' = (c', w'\<lparr>torn := torn w' @ [transport x]\<rparr>)"
    by (intro put_no_room client_Close_no_room; simp)+
  moreover from n have "fst (apply_ops e ops c' w') = c'"
    by (rule closed_apply_ops)
  ultimately show ?thesis
    using n w' by (simp add: Len_def idle_def channelPool_Get_def channelPool_Close_def)
qed

theorem C4_witness:
  "channelPool_Close ex_cpool_full ex_cworld = (ex_cpool_closed, ex_cworld_closed) \<and>
   conns ex_cpool_closed = None \<and> Len ex_cpool_closed = 0 \<and> idle ex_cpool_closed = [] \<and>
   torn ex_cworld_closed = torn ex_cworld @ map transport (idle ex_cpool_full) \<and>
   channelPool_Get ex_env ex_cpool_closed ex_cworld_closed =
     (Inl ErrClosed, ex_cpool_closed, ex_cworld_closed) \<and>
   put (Some ex_wrapper) ex_cpool_closed ex_cworld_closed =
     (ex_cpool_closed, ex_cworld_closed\<lparr>torn := torn ex_cworld_closed @ [transport ex_wrapper]\<rparr>) \<and>
   client_Close ex_wrapper ex_cpool_closed ex_cworld_closed =
     (ex_cpool_closed, ex_cworld_closed\<lparr>torn := torn ex_cworld_closed @ [transport ex_wrapper]\<rparr>) \<and>
   channelPool_Close ex_cpool_closed ex_cworld_closed = (ex_cpool_closed, ex_cworld_closed) \<and>
   fst (apply_ops ex_env [Release (Some ex_wrapper), Acquire, CloseAll] ex_cpool_closed ex_cworld_closed) =
     ex_cpool_closed"
proof -
  have h: "channelPool_Close ex_cpool_full ex_cworld = (ex_cpool_closed, ex_cworld_closed)"
    by (simp add: channelPool_Close_def ex_cpool_full_def ex_cpool_closed_def ex_cworld_def
        ex_cworld_closed_def dispose_def)
  from C4_closed_pool_stays_closed [OF h, of ex_env ex_wrapper "[Release (Some ex_wrapper), Acquire, CloseAll]"] h
  show ?thesis
    by (intro conjI) (elim conjE, assumption)+
qed

text \<open>
  C5. \<^verbatim>\<open>put\<close> of a \<^verbatim>\<open>nil\<close> connection writes the log line and does nothing else. \<^verbatim>\<open>put\<close> of a
  connection into a closed pool tears it down; into an open pool with room, appends it
  to the idle buffer and tears nothing down; into an open pool whose buffer holds as
  many connections as its capacity, tears it down and leaves the buffer as it was.
  The capacity never changes and a buffer within its capacity stays within it. (\<^verbatim>\<open>put\<close>
  returns in every case: it is a total function with no waiting step.)
\<close>

theorem C5_put_rejects_nil_closes_or_buffers:
  shows "put None c w = (c, w\<lparr>logs := logs w @ [''connection is nil. rejecting'']\<rparr>) \<and>
         (conns c = None \<longrightarrow>
            put (Some x) c w = (c, w\<lparr>torn := torn w @ [transport x]\<rparr>)) \<and>
         (\<forall>ch. conns c = Some ch \<and> length (chan_buf ch) < chan_cap ch \<longrightarrow>
            put (Some x) c w = (c\<lparr>conns := Some (ch\<lparr>chan_buf := chan_buf ch @ [x]\<rparr>)\<rparr>, w)) \<and>
         (\<forall>ch. conns c = Some ch \<and> chan_cap ch \<le> length (chan_buf ch) \<longrightarrow>
            put (Some x) c w = (c, w\<lparr>torn := torn w @ [transport x]\<rparr>)) \<and>
         capacity (fst (put conn c w)) = capacity c \<and>
         (Len c \<le> capacity c \<longrightarrow> Len (fst (put conn c w)) \<le> capacity c)"
proof -
  have a: "put None c w = (c, w\<lparr>logs := logs w @ [''connection is nil. rejecting'']\<rparr>)"
    by simp
  have b: "put (Some x) c w = (c, w\<lparr>torn := torn w @ [transport x]\<rparr>)" if "conns c = None"
    using that by (intro put_no_room) simp
  have d: "put (Some x) c w = (c\<lparr>conns := Some (ch\<lparr>chan_buf := chan_buf ch @ [x]\<rparr>)\<rparr>, w)"
    if "conns c = Some ch \<and> length (chan_buf ch) < chan_cap ch" for ch
    using that by simp
  have f: "put (Some x) c w = (c, w\<lparr>torn := torn w @ [transport x]\<rparr>)"
    if "conns c = Some ch \<and> chan_cap ch \<le> length (chan_buf ch)" for ch
    using that by (intro put_no_room) simp
  have g: "capacity (fst (put conn c w)) = capacity c \<and>
         (Len c \<le> capacity c \<longrightarrow> Len (fst (put conn c w)) \<le> capacity c)"
  proof (cases conn)
    case None
    then show ?thesis by simp
  next
    case (Some y)
    show ?thesis
    proof (cases "conns c")
      case None
      with Some put_no_room [of c y w] show ?thesis by simp
    next
      case ch: (Some ch)
      show ?thesis
      proof (cases "length (chan_buf ch) < chan_cap ch")
        case True
        with Some ch show ?thesis by (simp add: capacity_def Len_def)
      next
        case False
        with Some ch put_no_room [of c y w] show ?thesis by simp
      qed
    qed
  qed
  from a b d f g show ?thesis by blast
qed

theorem C5_witness:
  "put None ex_cpool ex_cworld = (ex_cpool, ex_cworld\<lparr>logs := [''connection is nil. rejecting'']\<rparr>) \<and>
   put (Some (LdapConn 2)) ex_cpool_closed ex_cworld = (ex_cpool_closed, ex_cworld\<lparr>torn := [2]\<rparr>) \<and>
   put (Some (LdapConn 2)) ex_cpool ex_cworld =
     (ex_cpool\<lparr>conns := Some \<lparr>chan_buf = [LdapConn 2], chan_cap = 2\<rparr>\<rparr>, ex_cworld) \<and>
   put (Some (LdapConn 2)) ex_cpool_full ex_cworld = (ex_cpool_full, ex_cworld\<lparr>torn := [2]\<rparr>) \<and>
   Len ex_cpool_full \<le> capacity ex_cpool_full \<and>
   Len (fst (put (Some (LdapConn 2)) ex_cpool_full ex_cworld)) \<le> capacity ex_cpool_full"
proof -
  note a = C5_put_rejects_nil_closes_or_buffers [of ex_cpool ex_cworld "LdapConn 2" None]
  note b = C5_put_rejects_nil_closes_or_buffers [of ex_cpool_closed ex_cworld "LdapConn 2" None]
  note d = C5_put_rejects_nil_closes_or_buffers [of ex_cpool_full ex_cworld "LdapConn 2" "Some (LdapConn 2)"]
  have h1: "conns ex_cpool_closed = None" by (simp add: ex_cpool_closed_def)
  have h2: "conns ex_cpool = Some \<lparr>chan_buf = [], chan_cap = 2\<rparr> \<and>
      length (chan_buf \<lparr>chan_buf = [], chan_cap = 2\<rparr>) < chan_cap \<lparr>chan_buf = [], chan_cap = 2\<rparr>"
    by (simp add: ex_cpool_def)
  have h3: "conns ex_cpool_full =
        Some \<lparr>chan_buf = [LdapConn 0, PoolConn (LdapConn 1) ex_closeAt None], chan_cap = 2\<rparr> \<and>
      chan_cap \<lparr>chan_buf = [LdapConn 0, PoolConn (LdapConn 1) ex_closeAt None], chan_cap = 2\<rparr>
        \<le> length (chan_buf \<lparr>chan_buf = [LdapConn 0, PoolConn (LdapConn 1) ex_closeAt None], chan_cap = 2\<rparr>)"
    by (simp add: ex_cpool_full_def)
  have h4: "Len ex_cpool_full \<le> capacity ex_cpool_full"
    by (simp add: Len_def capacity_def ex_cpool_full_def)
  from a [THEN conjunct1]
  have r1: "put None ex_cpool ex_cworld = (ex_cpool, ex_cworld\<lparr>logs := [''connection is nil. rejecting'']\<rparr>)"
    by (simp add: ex_cworld_def)
  from b [THEN conjunct2, THEN conjunct1, rule_format, OF h1]
  have r2: "put (Some (LdapConn 2)) ex_cpool_closed ex_cworld = (ex_cpool_closed, ex_cworld\<lparr>torn := [2]\<rparr>)"
    by (simp add: ex_cworld_def)
  from a [THEN conjunct2, THEN conjunct2, THEN conjunct1, rule_format, OF h2]
  have r3: "put (Some (LdapConn 2)) ex_cpool ex_cworld =
     (ex_cpool\<lparr>conns := Some \<lparr>chan_buf = [LdapConn 2], chan_cap = 2\<rparr>\<rparr>, ex_cworld)"
    by simp
  from d [THEN conjunct2, THEN conjunct2, THEN conjunct2, THEN conjunct1, rule_format, OF h3]
  have r4: "put (Some (LdapConn 2)) ex_cpool_full ex_cworld = (ex_cpool_full, ex_cworld\<lparr>torn := [2]\<rparr>)"
    by (simp add: ex_cworld_def)
  from d [THEN conjunct2, THEN conjunct2, THEN conjunct2, THEN conjunct2, THEN conjunct2, rule_format, OF h4]
  have r5: "Len (fst (put (Some (LdapConn 2)) ex_cpool_full ex_cworld)) \<le> capacity ex_cpool_full" .
  from r1 r2 r3 r4 h4 r5 show ?thesis by (intro conjI)
qed

text \<open>
  C8. \<^verbatim>\<open>NewChannelPool\<close> with \<open>initialCap < 0\<close>, \<open>maxCap \<le> 0\<close> or \<open>initialCap > maxCap\<close> returns
  the error "invalid capacity settings" and leaves the world and the server pool as
  they were: nothing is dialled. With valid capacities the \<open>initialCap\<close> eager dials are made
  one after another. As soon as one of them fails, the construction fails with the
  error "factory is not able to fill the pool" around the error of that dial, every
  connection made before it is torn down, nothing more is dialled and no pool is
  returned; the construction fails in this way only when a dial failed. When all of
  them succeed the pool returned holds exactly the \<open>initialCap\<close> connections made, in
  order, none torn down. (The buffer holds wrappers; their \<^verbatim>\<open>Close\<close>, which the loop of
  \<^verbatim>\<open>Close\<close> calls, is modelled from the specification.)
\<close>

theorem C8_invalid_capacity_or_failed_dial_gives_no_pool:
  assumes "NewChannelPool e initialCap maxCap srvs tls ca w = (r, sp', w')"
  shows "(initialCap < 0 \<or> maxCap \<le> 0 \<or> maxCap < initialCap
            \<longrightarrow> r = Inl ErrInvalidCapacity \<and> sp' = srvs \<and> w' = w) \<and>
         (0 \<le> initialCap \<and> 0 < maxCap \<and> initialCap \<le> maxCap
            \<longrightarrow> opened w' = opened w @ new_opened w w' \<and>
                ((\<exists>err. r = Inl (ErrFill err) \<and> torn w' = torn w @ new_opened w w' \<and>
                    length (new_opened w w') < nat initialCap) \<or>
                 (\<exists>c. r = Inr c \<and> torn w' = torn w \<and>
                    length (new_opened w w') = nat initialCap \<and>
                    idle c = map (\<lambda>j. wrapConn (LdapConn j) ca) (new_opened w w') \<and>
                    Len c = nat initialCap \<and> capacity c = nat maxCap)) \<and>
                (\<forall>k cs ck wk err c1 w1.
                   k < nat initialCap \<and>
                   eager_dials e tls k (empty_pool maxCap srvs tls ca) w = (None, cs, ck, wk) \<and>
                   NewConn e tls ck wk = (Inl err, c1, w1)
                   \<longrightarrow> r = Inl (ErrFill err) \<and> sp' = serverPool c1 \<and>
                       w' = w1\<lparr>torn := torn w1 @ map transport cs\<rparr>) \<and>
                (\<forall>err. r = Inl (ErrFill err)
                   \<longrightarrow> (\<exists>k<nat initialCap. \<exists>cs ck wk c1 w1.
                         eager_dials e tls k (empty_pool maxCap srvs tls ca) w = (None, cs, ck, wk) \<and>
                         NewConn e tls ck wk = (Inl err, c1, w1))) \<and>
                (\<forall>cs c1 w1.
                   eager_dials e tls (nat initialCap) (empty_pool maxCap srvs tls ca) w = (None, cs, c1, w1)
                   \<longrightarrow> r = Inr (c1\<lparr>conns := Some \<lparr>chan_buf = cs, chan_cap = nat maxCap\<rparr>\<rparr>) \<and>
                       sp' = serverPool c1 \<and> w' = w1))"
proof (cases "initialCap < 0 \<or> maxCap \<le> 0 \<or> maxCap < initialCap")
  case True
  with assms show ?thesis by (auto simp add: NewChannelPool_def)
next
  case False
  then have valid: "0 \<le> initialCap" "0 < maxCap" "initialCap \<le> maxCap" by simp_all
  define c0 where "c0 = \<lparr>conns = Some \<lparr>chan_buf = [], chan_cap = nat maxCap\<rparr>, name = [],
                 serverPool = srvs, useTLS = tls, closeAt = ca\<rparr>"
  from False assms have f: "fill e initialCap tls 0 c0 w = (r, sp', w')"
    by (simp add: NewChannelPool_def c0_def)
  have "conns c0 = Some \<lparr>chan_buf = [], chan_cap = nat maxCap\<rparr>" by (simp add: c0_def)
  from fill_result [OF f this, of "[]" "opened w"] False
  consider (fail) err ids' where "r = Inl (ErrFill err)" "opened w' = opened w @ ids'"
      "torn w' = torn w @ ids'" "int (length ids') < initialCap"
    | (ok) c' ids' where "r = Inr c'" "opened w' = opened w @ ids'" "torn w' = torn w"
      "idle c' = map (\<lambda>j. wrapConn (LdapConn j) ca) ids'"
      "int (length ids') = initialCap" "capacity c' = nat maxCap"
    by (auto simp add: c0_def max_def)
  then have ends: "opened w' = opened w @ new_opened w w' \<and>
                ((\<exists>err. r = Inl (ErrFill err) \<and> torn w' = torn w @ new_opened w w' \<and>
                    length (new_opened w w') < nat initialCap) \<or>
                 (\<exists>c. r = Inr c \<and> torn w' = torn w \<and>
                    length (new_opened w w') = nat initialCap \<and>
                    idle c = map (\<lambda>j. wrapConn (LdapConn j) ca) (new_opened w w') \<and>
                    Len c = nat initialCap \<and> capacity c = nat maxCap))"
  proof cases
    case fail
    then have "new_opened w w' = ids'" by (simp add: new_opened_def)
    with fail False show ?thesis by auto
  next
    case ok
    then have no: "new_opened w w' = ids'" by (simp add: new_opened_def)
    from ok(4) have "Len c' = length ids'"
      by (cases "conns c'") (simp_all add: idle_def Len_def)
    with ok no False show ?thesis by auto
  qed
  note eq = NewChannelPool_eager [OF valid, of e srvs tls ca w]
  have fast: "r = Inl (ErrFill err) \<and> sp' = serverPool c1 \<and>
                       w' = w1\<lparr>torn := torn w1 @ map transport cs\<rparr>"
    if "k < nat initialCap \<and>
        eager_dials e tls k (empty_pool maxCap srvs tls ca) w = (None, cs, ck, wk) \<and>
        NewConn e tls ck wk = (Inl err, c1, w1)" for k cs ck wk err c1 w1
  proof -
    from that eager_dials_first_failure [of e tls k "empty_pool maxCap srvs tls ca" w cs ck wk err c1 w1 "nat initialCap"]
    have "eager_dials e tls (nat initialCap) (empty_pool maxCap srvs tls ca) w = (Some err, cs, c1, w1)"
      by simp
    with eq assms show ?thesis by simp
  qed
  have only: "\<exists>k<nat initialCap. \<exists>cs ck wk c1 w1.
                         eager_dials e tls k (empty_pool maxCap srvs tls ca) w = (None, cs, ck, wk) \<and>
                         NewConn e tls ck wk = (Inl err, c1, w1)"
    if "r = Inl (ErrFill err)" for err
  proof -
    obtain r0 cs c1 w1 where ed:
      "eager_dials e tls (nat initialCap) (empty_pool maxCap srvs tls ca) w = (r0, cs, c1, w1)"
      by (cases "eager_dials e tls (nat initialCap) (empty_pool maxCap srvs tls ca) w" rule: prod_cases4)
    with eq assms that have "r0 = Some err" by (cases r0) simp_all
    with ed eager_dials_failure_point [of e tls "nat initialCap" "empty_pool maxCap srvs tls ca" w err cs c1 w1]
    show ?thesis by blast
  qed
  have full: "r = Inr (c1\<lparr>conns := Some \<lparr>chan_buf = cs, chan_cap = nat maxCap\<rparr>\<rparr>) \<and>
                       sp' = serverPool c1 \<and> w' = w1"
    if "eager_dials e tls (nat initialCap) (empty_pool maxCap srvs tls ca) w = (None, cs, c1, w1)"
    for cs c1 w1
    using that eq assms by simp
  from False ends fast only full show ?thesis by blast
qed

theorem C8_witness:
  "NewChannelPool ex_env_up 3 2 ex_pool False ex_closeAt ex_world = (Inl ErrInvalidCapacity, ex_pool, ex_world) \<and>
   fst ex_first_dial = None \<and> fst (snd ex_first_dial) = [PoolConn (LdapConn 0) ex_closeAt None] \<and>
   fst ex_second_dial = Inl ErrDial \<and>
   fst (NewChannelPool ex_env_dial 2 2 ex_pool False ex_closeAt ex_world) = Inl (ErrFill ErrDial) \<and>
   snd (snd (NewChannelPool ex_env_dial 2 2 ex_pool False ex_closeAt ex_world)) =
     (snd (snd ex_second_dial))\<lparr>torn := torn (snd (snd ex_second_dial)) @ [0]\<rparr> \<and>
   new_opened ex_world (snd (snd (NewChannelPool ex_env_dial 2 2 ex_pool False ex_closeAt ex_world))) = [0] \<and>
   torn (snd (snd (NewChannelPool ex_env_dial 2 2 ex_pool False ex_closeAt ex_world))) = torn ex_world @ [0] \<and>
   length (new_opened ex_world (snd (snd (NewChannelPool ex_env_up 2 2 ex_pool False ex_closeAt ex_world)))) = 2 \<and>
   torn (snd (snd (NewChannelPool ex_env_up 2 2 ex_pool False ex_closeAt ex_world))) = torn ex_world"
proof -
  define X where "X = NewChannelPool ex_env_dial 2 2 ex_pool False ex_closeAt ex_world"
  define Y where "Y = NewChannelPool ex_env_up 2 2 ex_pool False ex_closeAt ex_world"
  have h0: "NewChannelPool ex_env_up 3 2 ex_pool False ex_closeAt ex_world =
      (Inl ErrInvalidCapacity, ex_pool, ex_world)"
    by (simp add: NewChannelPool_def)
  have hx: "NewChannelPool ex_env_dial 2 2 ex_pool False ex_closeAt ex_world = (fst X, fst (snd X), snd (snd X))"
    by (simp add: X_def)
  have hy: "NewChannelPool ex_env_up 2 2 ex_pool False ex_closeAt ex_world = (fst Y, fst (snd Y), snd (snd Y))"
    by (simp add: Y_def)
  have e1: "fst ex_first_dial = None" "fst (snd ex_first_dial) = [PoolConn (LdapConn 0) ex_closeAt None]"
    by code_simp+
  have e2: "fst ex_second_dial = Inl ErrDial"
    by code_simp
  have ex: "new_opened ex_world (snd (snd X)) = [0]"
    unfolding X_def by code_simp
  have "\<not> isl (fst Y)"
    unfolding Y_def by code_simp
  then have ey: "\<And>err. fst Y \<noteq> Inl err"
    by auto
  have v: "(0::int) \<le> 2 \<and> (0::int) < 2 \<and> (2::int) \<le> 2" by simp
  note tx = C8_invalid_capacity_or_failed_dial_gives_no_pool [OF hx, THEN conjunct2, rule_format, OF v]
  note ty = C8_invalid_capacity_or_failed_dial_gives_no_pool [OF hy, THEN conjunct2, rule_format, OF v]
  have k: "(1::nat) < nat 2 \<and>
      eager_dials ex_env_dial False 1 (empty_pool 2 ex_pool False ex_closeAt) ex_world =
        (None, [PoolConn (LdapConn 0) ex_closeAt None], fst (snd (snd ex_first_dial)),
         snd (snd (snd ex_first_dial))) \<and>
      NewConn ex_env_dial False (fst (snd (snd ex_first_dial))) (snd (snd (snd ex_first_dial))) =
        (Inl ErrDial, fst (snd ex_second_dial), snd (snd ex_second_dial))"
    using e1 e2
    by (metis ex_first_dial_def ex_second_dial_def nat_numeral one_less_numeral_iff prod.collapse
        semiring_norm(76))
  note fast = tx [THEN conjunct2, THEN conjunct2, THEN conjunct1, rule_format, OF k]
  from fast have fx: "fst X = Inl (ErrFill ErrDial)"
    "snd (snd X) = (snd (snd ex_second_dial))\<lparr>torn := torn (snd (snd ex_second_dial)) @ [0]\<rparr>"
    by simp_all
  from tx fx(1) ex have rx: "torn (snd (snd X)) = torn ex_world @ [0]" by auto
  from ty ey have ry: "length (new_opened ex_world (snd (snd Y))) = 2" "torn (snd (snd Y)) = torn ex_world"
    by auto
  from h0 e1 e2 fx ex rx ry show ?thesis unfolding X_def Y_def by (intro conjI)
qed

end
